theory Spec2Isabelle
  imports Main
begin

section \<open>Python values, errors and list indexing\<close>

text \<open>
  The bot (\<^verbatim>\<open>tic_tac_toe_tg_bot.py\<close>) keeps one board per user, a list of three lists of
  one-character strings, and mutates it in place. Every Python exception the handlers can
  raise is a value here: a function that may raise returns \<open>error + 'a\<close>, with \<open>Inl\<close>
  for the exception.
\<close>

datatype error = ValueError | IndexError

definition and_then :: "error + 'a \<Rightarrow> ('a \<Rightarrow> error + 'b) \<Rightarrow> error + 'b" where
  "and_then m f = (case m of Inl e \<Rightarrow> Inl e | Inr x \<Rightarrow> f x)"

text \<open>
  \<^verbatim>\<open>xs[i]\<close> for an index that is never negative (the indices of the program come from
  \<^verbatim>\<open>range(3)\<close> and from \<^verbatim>\<open>int\<close> of one character): out of range raises IndexError.
\<close>

definition getitem :: "'a list \<Rightarrow> nat \<Rightarrow> error + 'a" where
  "getitem xs i = (if i < length xs then Inr (xs ! i) else Inl IndexError)"

text \<open>\<^verbatim>\<open>state[r][c]\<close>: the row is read first, then the cell.\<close>

definition getitem2 :: "'a list list \<Rightarrow> nat \<Rightarrow> nat \<Rightarrow> error + 'a" where
  "getitem2 state r c = and_then (getitem state r) (\<lambda>row. getitem row c)"

text \<open>\<^verbatim>\<open>state[r][c] = v\<close>: reads the row \<^verbatim>\<open>state[r]\<close>, then stores into it.\<close>

definition setitem2 :: "'a list list \<Rightarrow> nat \<Rightarrow> nat \<Rightarrow> 'a \<Rightarrow> error + 'a list list" where
  "setitem2 state r c v =
     and_then (getitem state r) (\<lambda>row.
       if c < length row then Inr (state[r := row[c := v]]) else Inl IndexError)"

text \<open>
  \<^verbatim>\<open>all(...)\<close> over a generator whose items may raise: the items are evaluated in order
  and the first False ends the evaluation, so an item after it never raises.
\<close>

fun all_err :: "(error + bool) list \<Rightarrow> error + bool" where
  "all_err [] = Inr True"
| "all_err (x # xs) = and_then x (\<lambda>b. if b then all_err xs else Inr False)"

text \<open>A \<^verbatim>\<open>for\<close> loop that returns True at the first item that holds.\<close>

fun any_err :: "(error + bool) list \<Rightarrow> error + bool" where
  "any_err [] = Inr False"
| "any_err (x # xs) = and_then x (\<lambda>b. if b then Inr True else any_err xs)"

section \<open>The board\<close>

type_synonym board = "string list list"

definition FREE_SPACE :: string where "FREE_SPACE = ''.''"
definition CROSS :: string where "CROSS = ''X''"
definition ZERO :: string where "ZERO = ''O''"

text \<open>A board of the data model: three rows of three cells.\<close>

definition wf_board :: "board \<Rightarrow> bool" where
  "wf_board b = (length b = 3 \<and> list_all (\<lambda>row. length row = 3) b)"

section \<open>Win detection: \<^verbatim>\<open>won\<close>\<close>

text \<open>
  \<^verbatim>\<open>
  def won(fields, symbol):
      for row in fields:
          if all(cell == symbol for cell in row):
              return True
      for col in range(3):
          if all(fields[row][col] == symbol for row in range(3)):
              return True
      if all(fields[i][i] == symbol for i in range(3)) or \
              all(fields[i][2 - i] == symbol for i in range(3)):
          return True
      return False
  \<close>
  The first loop reads no index and cannot raise; the column and diagonal checks index
  the board and raise IndexError on a board that is too small.
\<close>

definition cell_is :: "board \<Rightarrow> string \<Rightarrow> nat \<Rightarrow> nat \<Rightarrow> error + bool" where
  "cell_is fields symbol i j = and_then (getitem2 fields i j) (\<lambda>cell. Inr (cell = symbol))"

definition won :: "board \<Rightarrow> string \<Rightarrow> error + bool" where
  "won fields symbol =
     (if list_ex (\<lambda>row. list_all (\<lambda>cell. cell = symbol) row) fields then Inr True
      else and_then
        (any_err (map (\<lambda>col. all_err (map (\<lambda>row. cell_is fields symbol row col) [0..<3]))
           [0..<3]))
        (\<lambda>column. if column then Inr True
         else and_then (all_err (map (\<lambda>i. cell_is fields symbol i i) [0..<3]))
           (\<lambda>diagonal. if diagonal then Inr True
            else and_then (all_err (map (\<lambda>i. cell_is fields symbol i (2 - i)) [0..<3]))
              (\<lambda>antidiagonal. if antidiagonal then Inr True else Inr False))))"

text \<open>
  The specification of \<open>hasWon\<close>, in the spec's words: one of the 8 canonical lines (the
  3 rows, the 3 columns, the diagonal from the top left and the one from the top right)
  has all three of its cells equal to the mark.
\<close>

definition canonical_lines :: "(nat \<times> nat) list list" where
  "canonical_lines =
     [[(0, 0), (0, 1), (0, 2)], [(1, 0), (1, 1), (1, 2)], [(2, 0), (2, 1), (2, 2)],
      [(0, 0), (1, 0), (2, 0)], [(0, 1), (1, 1), (2, 1)], [(0, 2), (1, 2), (2, 2)],
      [(0, 0), (1, 1), (2, 2)], [(0, 2), (1, 1), (2, 0)]]"

definition line_full :: "board \<Rightarrow> string \<Rightarrow> (nat \<times> nat) list \<Rightarrow> bool" where
  "line_full b mark l = list_all (\<lambda>(i, j). b ! i ! j = mark) l"

definition hasWon_spec :: "board \<Rightarrow> string \<Rightarrow> bool" where
  "hasWon_spec b mark = list_ex (line_full b mark) canonical_lines"

definition line_has_empty :: "board \<Rightarrow> (nat \<times> nat) list \<Rightarrow> bool" where
  "line_has_empty b l = list_ex (\<lambda>(i, j). b ! i ! j = FREE_SPACE) l"

section \<open>The keyboard: \<^verbatim>\<open>generate_keyboard\<close>\<close>

text \<open>
  \<^verbatim>\<open>InlineKeyboardButton(text, callback_data=...)\<close>: a button shows a text and carries the
  data that a press sends back to the bot.
\<close>

datatype InlineKeyboardButton = InlineKeyboardButton (button_text: string) (callback_data: string)

type_synonym keyboard = "InlineKeyboardButton list list"

text \<open>
  The f-string \<^verbatim>\<open>f'{r}{c}'\<close> renders two integers that are never negative in decimal.
\<close>

fun str :: "nat \<Rightarrow> string" where
  "str n = (if n < 10 then [''0123456789'' ! n]
            else str (n div 10) @ [''0123456789'' ! (n mod 10)])"

declare str.simps [simp del]

text \<open>
  A list comprehension whose items may raise: the items are evaluated in order and the
  first exception ends the comprehension.
\<close>

fun collect :: "(error + 'a) list \<Rightarrow> error + 'a list" where
  "collect [] = Inr []"
| "collect (x # xs) = and_then x (\<lambda>y. and_then (collect xs) (\<lambda>ys. Inr (y # ys)))"

text \<open>
  \<^verbatim>\<open>
  def generate_keyboard(state):
      return [
          [
              InlineKeyboardButton(state[r][c], callback_data=f'{r}{c}')
              for r in range(3)
          ]
          for c in range(3)
      ]
  \<close>
  The outer comprehension runs over \<^verbatim>\<open>c\<close> and the inner one over \<^verbatim>\<open>r\<close>.
\<close>

definition generate_keyboard :: "board \<Rightarrow> error + keyboard" where
  "generate_keyboard state =
     collect (map (\<lambda>c.
       collect (map (\<lambda>r.
         and_then (getitem2 state r c) (\<lambda>cell.
           Inr (InlineKeyboardButton cell (str r @ str c))))
         [0..<3]))
       [0..<3])"

section \<open>The move handler: \<^verbatim>\<open>game\<close>\<close>

text \<open>
  \<^verbatim>\<open>
  free_cells = [(i, j) for i in range(3) for j in range(3)
                if state[i][j] == FREE_SPACE]
  \<close>
\<close>

definition free_cells :: "board \<Rightarrow> error + (nat \<times> nat) list" where
  "free_cells state =
     and_then
       (collect (map (\<lambda>(i, j). and_then (getitem2 state i j) (\<lambda>cell. Inr ((i, j), cell = FREE_SPACE)))
          (List.product [0..<3] [0..<3])))
       (\<lambda>cells. Inr (map fst (filter snd cells)))"

text \<open>
  \<^verbatim>\<open>random.choice(seq)\<close> returns \<^verbatim>\<open>seq[randbelow(len(seq))]\<close> and raises IndexError on an
  empty sequence. The random draw is the parameter \<open>k\<close>, reduced to the range of the
  sequence: every element is chosen for some \<open>k\<close>, and nothing else ever is.
\<close>

definition choice :: "nat \<Rightarrow> 'a list \<Rightarrow> error + 'a" where
  "choice k seq = (if seq = [] then Inl IndexError else Inr (seq ! (k mod length seq)))"

text \<open>
  \<^verbatim>\<open>r, c = map(int, query.data)\<close>: \<^verbatim>\<open>int\<close> of each character of the callback data, unpacked
  into exactly two values. A character that is no decimal digit, and data of any length
  other than two, raise ValueError.
\<close>

definition int_char :: "char \<Rightarrow> error + nat" where
  "int_char ch =
     (case map_of [(CHR ''0'', 0), (CHR ''1'', 1), (CHR ''2'', 2), (CHR ''3'', 3), (CHR ''4'', 4),
                   (CHR ''5'', 5), (CHR ''6'', 6), (CHR ''7'', 7), (CHR ''8'', 8), (CHR ''9'', 9)] ch of
        None \<Rightarrow> Inl ValueError
      | Some n \<Rightarrow> Inr n)"

definition parse_move :: "string \<Rightarrow> error + nat \<times> nat" where
  "parse_move data =
     (case data of
        [a, b] \<Rightarrow> and_then (int_char a) (\<lambda>r. and_then (int_char b) (\<lambda>c. Inr (r, c)))
      | _ \<Rightarrow> Inl ValueError)"

text \<open>
  \<^verbatim>\<open>CONTINUE_GAME, FINISH_GAME = range(2)\<close> are the states of the conversation;
  \<^verbatim>\<open>ConversationHandler.END\<close> is the library's constant -1.
\<close>

definition CONTINUE_GAME :: int where "CONTINUE_GAME = 0"
definition FINISH_GAME :: int where "FINISH_GAME = 1"
definition END :: int where "END = - 1"

text \<open>The texts of the messages, as the source writes them.\<close>

definition OCCUPIED_TEXT :: string where
  "OCCUPIED_TEXT = ''This cell is already occupied! Please, choose another one.''"
definition YOU_WON_TEXT :: string where
  "YOU_WON_TEXT = ''You won! To play again please press '/start'' @ [CHR 0x27, CHR 0x0A]
     @ ''To finish game please press '/stop'' @ [CHR 0x27]"
definition AI_WON_TEXT :: string where
  "AI_WON_TEXT = ''AI won! To play again please press '/start'' @ [CHR 0x27, CHR 0x0A]
     @ ''To finish game please press '/stop'' @ [CHR 0x27]"
definition DRAW_TEXT :: string where
  "DRAW_TEXT = ''Draw! To play again please press '/start'' @ [CHR 0x27, CHR 0x0A]
     @ ''To finish game please press '/stop'' @ [CHR 0x27]"
definition TURN_TEXT :: string where
  "TURN_TEXT = ''X (your) turn! Please, put X to the free place.'' @ [CHR 0x0A]
     @ ''To finish game please press '/stop'' @ [CHR 0x27]"

text \<open>
  What a handler sends: \<^verbatim>\<open>reply_text(text)\<close>, with a keyboard when \<^verbatim>\<open>reply_markup\<close> is
  given, or \<^verbatim>\<open>edit_message_text(text, reply_markup)\<close>. The acknowledgement
  \<^verbatim>\<open>query.answer()\<close> that opens \<^verbatim>\<open>game\<close> is sent on every path alike and is left out.
\<close>

datatype action =
    Reply_text string "keyboard option"
  | Edit_message_text string keyboard

text \<open>
  A handler's result: the exception it raised, or the messages it sent and the
  conversation state it returned; and beside it the state it leaves behind, which the
  handler mutates in place and which therefore outlives an exception.
\<close>

type_synonym 's handled = "(error + action list \<times> int) \<times> 's"

definition attempt :: "error + 'a \<Rightarrow> 's \<Rightarrow> ('a \<Rightarrow> 's handled) \<Rightarrow> 's handled" where
  "attempt m state f = (case m of Inl e \<Rightarrow> (Inl e, state) | Inr x \<Rightarrow> f x)"

text \<open>
  \<^verbatim>\<open>
  async def game(update, context):
      query = update.callback_query
      await query.answer()
      r, c = map(int, query.data)
      state = context.user_data['keyboard_state']
      # Free cell check
      if state[r][c] != FREE_SPACE:
          await query.message.reply_text("This cell is already occupied! ...")
          return CONTINUE_GAME
      # User turn
      state[r][c] = CROSS
      # User victory check
      if won(state, CROSS):
          await query.message.reply_text("You won! ...")
          return FINISH_GAME
      # AI turn (random cell)
      free_cells = [...]
      if free_cells:
          ir, ic = random.choice(free_cells)
          state[ir][ic] = ZERO
          # AI victory check
          if won(state, ZERO):
              await query.message.reply_text("AI won! ...")
              return FINISH_GAME
      # Draw check
      if not free_cells:
          await query.message.reply_text("Draw! ...")
          return FINISH_GAME
      # Updating the keyboard
      keyboard = generate_keyboard(state)
      reply_markup = InlineKeyboardMarkup(keyboard)
      await query.edit_message_text(text="X (your) turn! ...", reply_markup=reply_markup)
      return CONTINUE_GAME
  \<close>
  The handler is split where its control flow joins: \<open>draw_check\<close> is the code from the
  draw check to the end, which both branches of \<^verbatim>\<open>if free_cells:\<close> reach with the list
  \<^verbatim>\<open>free_cells\<close> computed before the AI's turn; \<open>ai_turn\<close> is the code from
  \<^verbatim>\<open>if free_cells:\<close> on. The parameters of \<open>game\<close> are the callback data
  \<^verbatim>\<open>query.data\<close>, the board \<^verbatim>\<open>context.user_data['keyboard_state']\<close>, which \<^verbatim>\<open>start\<close> has
  stored before the conversation enters \<^verbatim>\<open>CONTINUE_GAME\<close>, and the random draw.
\<close>

definition draw_check :: "(nat \<times> nat) list \<Rightarrow> board \<Rightarrow> board handled" where
  "draw_check cells state =
     (if cells = [] then (Inr ([Reply_text DRAW_TEXT None], FINISH_GAME), state)
      else attempt (generate_keyboard state) state (\<lambda>keyboard.
        (Inr ([Edit_message_text TURN_TEXT keyboard], CONTINUE_GAME), state)))"

definition ai_turn :: "nat \<Rightarrow> (nat \<times> nat) list \<Rightarrow> board \<Rightarrow> board handled" where
  "ai_turn k cells state =
     (if cells \<noteq> [] then
        attempt (choice k cells) state (\<lambda>(ir, ic).
        attempt (setitem2 state ir ic ZERO) state (\<lambda>state'.
        attempt (won state' ZERO) state' (\<lambda>ai_won.
          if ai_won then (Inr ([Reply_text AI_WON_TEXT None], FINISH_GAME), state')
          else draw_check cells state')))
      else draw_check cells state)"

definition game :: "string \<Rightarrow> board \<Rightarrow> nat \<Rightarrow> board handled" where
  "game data state k =
     attempt (parse_move data) state (\<lambda>(r, c).
     attempt (getitem2 state r c) state (\<lambda>cell.
       if cell \<noteq> FREE_SPACE then (Inr ([Reply_text OCCUPIED_TEXT None], CONTINUE_GAME), state)
       else
         attempt (setitem2 state r c CROSS) state (\<lambda>state'.
         attempt (won state' CROSS) state' (\<lambda>user_won.
           if user_won then (Inr ([Reply_text YOU_WON_TEXT None], FINISH_GAME), state')
           else attempt (free_cells state') state' (\<lambda>cells. ai_turn k cells state')))))"

section \<open>The registered callback patterns\<close>

text \<open>
  \<^verbatim>\<open>
  # ^ means "start of line/string"
  # $ means "end of line/string"
  # So ^ABC$ will only allow 'ABC'
  CONTINUE_GAME: [
      CallbackQueryHandler(game, pattern='^' + f'{r}{c}' + '$')
      for r in range(3)
      for c in range(3)
  ],
  \<close>
  A \<^verbatim>\<open>CallbackQueryHandler\<close> with a string pattern handles a callback query when
  \<^verbatim>\<open>re.match(pattern, data)\<close> finds a match. The patterns of the bot are built from the two
  anchors and literal digits, and \<open>re_match\<close> is Python's \<^verbatim>\<open>re.match\<close> on that fragment:
  the match starts at the start of the data, \<^verbatim>\<open>^\<close> matches at the start only, a literal
  matches itself, and \<^verbatim>\<open>$\<close> matches at the end of the data and also just before a
  newline that ends the data. The flag of \<open>re_match_at\<close> says whether the position is
  the start of the data.
\<close>

fun re_match_at :: "bool \<Rightarrow> string \<Rightarrow> string \<Rightarrow> bool" where
  "re_match_at start [] s = True"
| "re_match_at start (p # ps) s =
     (if p = CHR ''^'' then start \<and> re_match_at start ps s
      else if p = CHR ''$'' then (s = [] \<or> s = [CHR 0x0A]) \<and> re_match_at start ps s
      else (case s of [] \<Rightarrow> False | x # xs \<Rightarrow> x = p \<and> re_match_at False ps xs))"

definition re_match :: "string \<Rightarrow> string \<Rightarrow> bool" where
  "re_match pattern s = re_match_at True pattern s"

text \<open>The patterns of the state \<^verbatim>\<open>CONTINUE_GAME\<close>, in the order of the comprehension.\<close>

definition game_patterns :: "string list" where
  "game_patterns = map (\<lambda>(r, c). ''^'' @ (str r @ str c) @ ''$'') (List.product [0..<3] [0..<3])"

text \<open>
  In the state \<^verbatim>\<open>CONTINUE_GAME\<close> a callback query is passed to \<^verbatim>\<open>game\<close> when one of the
  patterns matches its data; every handler of that state calls \<^verbatim>\<open>game\<close>.
\<close>

definition reaches_game :: "string \<Rightarrow> bool" where
  "reaches_game data = list_ex (\<lambda>pattern. re_match pattern data) game_patterns"

text \<open>The callback data of the nine buttons.\<close>

definition move_data :: "string list" where
  "move_data = [''00'', ''01'', ''02'', ''10'', ''11'', ''12'', ''20'', ''21'', ''22'']"

section \<open>Vocabulary of the specification\<close>

text \<open>
  \<open>place\<close> is the board with one cell set; \<open>empty_cells\<close> lists the EMPTY cells in the
  order of the source's comprehension; \<open>keyboard_of\<close> is the keyboard of a 3 by 3 board.
\<close>

definition place :: "board \<Rightarrow> nat \<Rightarrow> nat \<Rightarrow> string \<Rightarrow> board" where
  "place b r c mark = b[r := (b ! r)[c := mark]]"

definition positions :: "(nat \<times> nat) list" where
  "positions = List.product [0..<3] [0..<3]"

definition empty_cells :: "board \<Rightarrow> (nat \<times> nat) list" where
  "empty_cells b = filter (\<lambda>(i, j). b ! i ! j = FREE_SPACE) positions"

definition keyboard_of :: "board \<Rightarrow> keyboard" where
  "keyboard_of b = map (\<lambda>c. map (\<lambda>r. InlineKeyboardButton (b ! r ! c) (str r @ str c)) [0..<3]) [0..<3]"

section \<open>Outcomes of the specification\<close>

text \<open>
  The specification classifies every call of the move handler by a GameOutcome. The
  handler itself returns no such value: the outcome is the message it sends, one text per
  outcome.
\<close>

datatype outcome = ONGOING | PLAYER_WIN | OPPONENT_WIN | DRAW | ILLEGAL_MOVE

definition outcome_of :: "action \<Rightarrow> outcome option" where
  "outcome_of a =
     (case a of
        Reply_text t markup \<Rightarrow>
          (if t = OCCUPIED_TEXT then Some ILLEGAL_MOVE
           else if t = YOU_WON_TEXT then Some PLAYER_WIN
           else if t = AI_WON_TEXT then Some OPPONENT_WIN
           else if t = DRAW_TEXT then Some DRAW
           else None)
      | Edit_message_text t keyboard \<Rightarrow> (if t = TURN_TEXT then Some ONGOING else None))"

text \<open>
  The number of cells that hold a mark, and the boards on which the player is to move
  in a game played by turns: every cell holds one of the three values, and there are as
  many crosses as zeros.
\<close>

definition count_mark :: "board \<Rightarrow> string \<Rightarrow> nat" where
  "count_mark b mark = length (filter (\<lambda>cell. cell = mark) (concat b))"

definition marks_balanced :: "board \<Rightarrow> bool" where
  "marks_balanced b =
     (list_all (\<lambda>cell. cell = FREE_SPACE \<or> cell = CROSS \<or> cell = ZERO) (concat b)
      \<and> count_mark b CROSS = count_mark b ZERO)"

section \<open>Boards in the store\<close>

text \<open>
  Python lists are objects: \<^verbatim>\<open>state[r][c] = CROSS\<close> changes the row object that every
  reference to it sees. Where sharing matters the lists live in a store: \<open>rows\<close> holds
  the inner lists (lists of strings) and \<open>grids\<close> the outer lists (lists of references
  to rows), each by address, and \<open>next_addr\<close> is the first address not yet given out.
\<close>

record heap =
  rows :: "nat \<Rightarrow> string list"
  grids :: "nat \<Rightarrow> nat list"
  next_addr :: nat

definition new_row :: "string list \<Rightarrow> heap \<Rightarrow> nat \<times> heap" where
  "new_row cells h =
     (next_addr h, h\<lparr>rows := (rows h)(next_addr h := cells), next_addr := Suc (next_addr h)\<rparr>)"

definition new_grid :: "nat list \<Rightarrow> heap \<Rightarrow> nat \<times> heap" where
  "new_grid refs h =
     (next_addr h, h\<lparr>grids := (grids h)(next_addr h := refs), next_addr := Suc (next_addr h)\<rparr>)"

text \<open>
  \<^verbatim>\<open>DEFAULT_STATE = [[FREE_SPACE for _ in range(3)] for _ in range(3)]\<close>, executed once
  when the module is loaded: three new rows and one new outer list.
\<close>

definition empty_heap :: heap where
  "empty_heap = \<lparr>rows = (\<lambda>a. []), grids = (\<lambda>a. []), next_addr = 0\<rparr>"

definition module_init :: "nat \<times> heap" where
  "module_init =
     (let (r0, h0) = new_row (replicate 3 FREE_SPACE) empty_heap;
          (r1, h1) = new_row (replicate 3 FREE_SPACE) h0;
          (r2, h2) = new_row (replicate 3 FREE_SPACE) h1
      in new_grid [r0, r1, r2] h2)"

definition DEFAULT_STATE :: nat where
  "DEFAULT_STATE = fst module_init"

definition module_heap :: heap where
  "module_heap = snd module_init"

text \<open>
  \<^verbatim>\<open>copy.deepcopy\<close> of a list of lists of strings. The copy of the outer list is created
  first and entered in the memo; then every element is copied in turn and appended. An
  inner list that the memo already holds is not copied again (the copy keeps the sharing
  of the original); the strings are immutable and are not copied.
\<close>

fun deepcopy_rows :: "(nat \<times> nat) list \<Rightarrow> nat list \<Rightarrow> heap \<Rightarrow> nat list \<times> heap" where
  "deepcopy_rows memo [] h = ([], h)"
| "deepcopy_rows memo (a # as) h =
     (case map_of memo a of
        Some a' \<Rightarrow> (let (out, h') = deepcopy_rows memo as h in (a' # out, h'))
      | None \<Rightarrow>
          (let (a', h1) = new_row (rows h a) h;
               (out, h') = deepcopy_rows ((a, a') # memo) as h1
           in (a' # out, h')))"

definition deepcopy :: "nat \<Rightarrow> heap \<Rightarrow> nat \<times> heap" where
  "deepcopy x h =
     (let (y, h0) = new_grid [] h;
          (out, h1) = deepcopy_rows [] (grids h x) h0
      in (y, h1\<lparr>grids := (grids h1)(y := out)\<rparr>))"

text \<open>
  \<^verbatim>\<open>
  def get_default_state():
      return deepcopy(DEFAULT_STATE)
  \<close>
\<close>

definition get_default_state :: "heap \<Rightarrow> nat \<times> heap" where
  "get_default_state h = deepcopy DEFAULT_STATE h"

text \<open>The board that an outer list denotes in a store, as a value.\<close>

definition board_at :: "heap \<Rightarrow> nat \<Rightarrow> board" where
  "board_at h g = map (rows h) (grids h g)"

text \<open>\<^verbatim>\<open>state[r][c] = v\<close> in the store: the row object \<^verbatim>\<open>state[r]\<close> is changed in place.\<close>

definition heap_setitem2 :: "nat \<Rightarrow> nat \<Rightarrow> nat \<Rightarrow> string \<Rightarrow> heap \<Rightarrow> error + heap" where
  "heap_setitem2 g r c v h =
     and_then (getitem (grids h g) r) (\<lambda>a.
       if c < length (rows h a) then Inr (h\<lparr>rows := (rows h)(a := (rows h a)[c := v])\<rparr>)
       else Inl IndexError)"

section \<open>The handlers that reset the board: \<^verbatim>\<open>start\<close>, \<^verbatim>\<open>end\<close> and \<^verbatim>\<open>stop\<close>\<close>

text \<open>
  The context of a handler: the store, and the entry \<^verbatim>\<open>'keyboard_state'\<close> of
  \<^verbatim>\<open>context.user_data\<close>, a reference to the board of the session (absent before the
  first \<^verbatim>\<open>/start\<close>).
\<close>

record bot_context =
  store :: heap
  keyboard_state :: "nat option"

definition STOP_TEXT :: string where
  "STOP_TEXT = ''Bot is stopping... Goodbye!''"

text \<open>\<^verbatim>\<open>context.user_data['keyboard_state'] = get_default_state()\<close>\<close>

definition reset_state :: "bot_context \<Rightarrow> nat \<times> bot_context" where
  "reset_state ctx =
     (let (g, h) = get_default_state (store ctx)
      in (g, ctx\<lparr>store := h, keyboard_state := Some g\<rparr>))"

text \<open>The board of the session, as a value.\<close>

definition session_board :: "bot_context \<Rightarrow> board option" where
  "session_board ctx = map_option (board_at (store ctx)) (keyboard_state ctx)"

text \<open>
  \<^verbatim>\<open>
  async def start(update, context):
      context.user_data['keyboard_state'] = get_default_state()
      keyboard = generate_keyboard(context.user_data['keyboard_state'])
      reply_markup = InlineKeyboardMarkup(keyboard)
      await update.message.reply_text("X (your) turn! ...", reply_markup=reply_markup)
      return CONTINUE_GAME

  async def end(update, context):
      # reset state to default so you can play again with /start
      context.user_data['keyboard_state'] = get_default_state()
      return ConversationHandler.END

  async def stop(update, context):
      await update.message.reply_text("Bot is stopping... Goodbye!")
      context.user_data['keyboard_state'] = get_default_state()
      await context.application.stop()
      return ConversationHandler.END
  \<close>
  \<^verbatim>\<open>start\<close> is the entry point of the conversation and one of its fallbacks, so it also
  runs on \<^verbatim>\<open>/start\<close> after a finished game; \<^verbatim>\<open>end\<close> handles a button pressed in the state
  \<^verbatim>\<open>FINISH_GAME\<close>. The text of \<^verbatim>\<open>start\<close> is the text of the handler \<^verbatim>\<open>game\<close> for the next
  turn. \<^verbatim>\<open>end\<close> is a keyword here, so the handler is \<open>end_handler\<close>.
\<close>

definition start :: "bot_context \<Rightarrow> bot_context handled" where
  "start ctx =
     (let (g, ctx') = reset_state ctx in
      attempt (generate_keyboard (board_at (store ctx') g)) ctx'
        (\<lambda>keyboard. (Inr ([Reply_text TURN_TEXT (Some keyboard)], CONTINUE_GAME), ctx')))"

definition end_handler :: "bot_context \<Rightarrow> bot_context handled" where
  "end_handler ctx = (let (g, ctx') = reset_state ctx in (Inr ([], END), ctx'))"

text \<open>
  \<^verbatim>\<open>stop\<close> is modelled up to its call of the library, \<^verbatim>\<open>context.application.stop()\<close>:
  the message it has sent and the context it has stored by then. Whether that call
  returns, so that the handler returns at all, is left open.
\<close>

definition stop :: "bot_context \<Rightarrow> action list \<times> bot_context" where
  "stop ctx = (let (g, ctx') = reset_state ctx in ([Reply_text STOP_TEXT None], ctx'))"

text \<open>The context when the module is loaded and no handler has run.\<close>

definition initial_context :: bot_context where
  "initial_context = \<lparr>store = module_heap, keyboard_state = None\<rparr>"

text \<open>
  The stores of the program are the two assignments \<^verbatim>\<open>state[r][c] = CROSS\<close> and
  \<^verbatim>\<open>state[ir][ic] = ZERO\<close> of \<^verbatim>\<open>game\<close>, both through the board of the session.
  \<open>store_cell\<close> is such an assignment on a context, and \<open>reach\<close> holds of the contexts
  that the handlers produce from the initial one: by the three handlers above and by any
  store through the board of the session.
\<close>

definition store_cell :: "nat \<Rightarrow> nat \<Rightarrow> string \<Rightarrow> bot_context \<Rightarrow> bot_context" where
  "store_cell r c v ctx =
     (case keyboard_state ctx of
        None \<Rightarrow> ctx
      | Some g \<Rightarrow>
          (case heap_setitem2 g r c v (store ctx) of
             Inl e \<Rightarrow> ctx
           | Inr h \<Rightarrow> ctx\<lparr>store := h\<rparr>))"

inductive reach :: "bot_context \<Rightarrow> bool" where
  init: "reach initial_context"
| start: "reach ctx \<Longrightarrow> reach (snd (start ctx))"
| end_handler: "reach ctx \<Longrightarrow> reach (snd (end_handler ctx))"
| stop: "reach ctx \<Longrightarrow> reach (snd (stop ctx))"
| game_store: "reach ctx \<Longrightarrow> reach (store_cell r c v ctx)"

text \<open>
  A session after \<^verbatim>\<open>/start\<close> and a game that the player has won: crosses at (0,0), (0,1)
  and (0,2), zeros at (1,0) and (1,1).
\<close>

definition played_context :: bot_context where
  "played_context =
     store_cell 0 2 CROSS (store_cell 1 1 ZERO (store_cell 0 1 CROSS
       (store_cell 1 0 ZERO (store_cell 0 0 CROSS (snd (start initial_context))))))"

text \<open>
  The board at \<open>y\<close> of the store \<open>h'\<close> is independent of the boards of an earlier store
  \<open>h\<close>: those boards are as they were, no store through one of them changes the board at
  \<open>y\<close>, and no store through \<open>y\<close> changes one of them.
\<close>

definition independent_of_earlier :: "heap \<Rightarrow> heap \<Rightarrow> nat \<Rightarrow> bool" where
  "independent_of_earlier h h' y \<longleftrightarrow>
     (\<forall>g < next_addr h. \<forall>r c v h''.
        board_at h' g = board_at h g
        \<and> (heap_setitem2 g r c v h' = Inr h'' \<longrightarrow> board_at h'' y = board_at h' y)
        \<and> (heap_setitem2 y r c v h' = Inr h'' \<longrightarrow> board_at h'' g = board_at h' g))"

text \<open>The board with all 9 cells EMPTY.\<close>

definition default_board :: board where
  "default_board = replicate 3 (replicate 3 FREE_SPACE)"

text \<open>
  What every store of a reachable context satisfies: \<^verbatim>\<open>DEFAULT_STATE\<close> still denotes the
  empty board, references point to allocated objects, and no two outer lists share a row,
  nor does one outer list hold a row twice.
\<close>

definition heap_inv :: "heap \<Rightarrow> bool" where
  "heap_inv h \<longleftrightarrow>
     DEFAULT_STATE < next_addr h
     \<and> board_at h DEFAULT_STATE = default_board
     \<and> (\<forall>g a. a \<in> set (grids h g) \<longrightarrow> g < next_addr h \<and> a < next_addr h)
     \<and> (\<forall>g g'. g \<noteq> g' \<longrightarrow> set (grids h g) \<inter> set (grids h g') = {})
     \<and> (\<forall>g. distinct (grids h g))"

definition ctx_inv :: "bot_context \<Rightarrow> bool" where
  "ctx_inv ctx \<longleftrightarrow>
     heap_inv (store ctx)
     \<and> (\<forall>g. keyboard_state ctx = Some g \<longrightarrow> g < next_addr (store ctx) \<and> g \<noteq> DEFAULT_STATE)"

section \<open>Boards in play\<close>

text \<open>
  The boards on which the player is to move: the empty board that \<^verbatim>\<open>start\<close> stores, and
  every board that \<^verbatim>\<open>game\<close> leaves when it returns \<^verbatim>\<open>CONTINUE_GAME\<close>.
\<close>

inductive in_play :: "board \<Rightarrow> bool" where
  fresh: "in_play default_board"
| move: "in_play b \<Longrightarrow> game data b k = (Inr (acts, CONTINUE_GAME), b') \<Longrightarrow> in_play b'"

section \<open>Basic facts\<close>

lemma upt_3: "[0..<3] = [0, 1, 2]"
  by (simp add: upt_rec)

lemma wf_boardE:
  assumes "wf_board b"
  obtains a0 a1 a2 b0 b1 b2 c0 c1 c2
  where "b = [[a0, a1, a2], [b0, b1, b2], [c0, c1, c2]]"
proof -
  from assms obtain r0 r1 r2 where b: "b = [r0, r1, r2]"
    by (auto simp: wf_board_def length_Suc_conv numeral_3_eq_3)
  with assms have "length r0 = 3" "length r1 = 3" "length r2 = 3"
    by (simp_all add: wf_board_def)
  then obtain a0 a1 a2 b0 b1 b2 c0 c1 c2
    where "r0 = [a0, a1, a2]" "r1 = [b0, b1, b2]" "r2 = [c0, c1, c2]"
    by (auto simp: length_Suc_conv numeral_3_eq_3)
  with b show thesis using that by blast
qed

lemma won_wf: "wf_board b \<Longrightarrow> won b mark = Inr (hasWon_spec b mark)"
proof (erule wf_boardE)
  fix a0 a1 a2 b0 b1 b2 c0 c1 c2
  assume b: "b = [[a0, a1, a2], [b0, b1, b2], [c0, c1, c2]]"
  show ?thesis
    unfolding b won_def hasWon_spec_def canonical_lines_def line_full_def
    by (simp add: upt_3 cell_is_def getitem2_def getitem_def and_then_def)
qed

lemma line_with_empty_not_full:
  "mark \<noteq> FREE_SPACE \<Longrightarrow> line_has_empty b l \<Longrightarrow> \<not> line_full b mark l"
  by (auto simp: line_has_empty_def line_full_def list_ex_iff list_all_iff)

lemma wf_board_nth: "wf_board b \<Longrightarrow> r < 3 \<Longrightarrow> r < length b \<and> length (b ! r) = 3"
  by (simp add: wf_board_def list_all_length)

lemma getitem2_wf: "wf_board b \<Longrightarrow> r < 3 \<Longrightarrow> c < 3 \<Longrightarrow> getitem2 b r c = Inr (b ! r ! c)"
  using wf_board_nth [of b r] by (simp add: getitem2_def getitem_def and_then_def)

lemma setitem2_wf:
  "wf_board b \<Longrightarrow> r < 3 \<Longrightarrow> c < 3 \<Longrightarrow> setitem2 b r c v = Inr (place b r c v)"
  using wf_board_nth [of b r] by (simp add: setitem2_def getitem_def and_then_def place_def)

lemma wf_board_place: "wf_board b \<Longrightarrow> wf_board (place b r c v)"
proof (cases "r < length b")
  case True
  assume "wf_board b"
  with True show ?thesis
    by (auto simp: wf_board_def place_def list_all_length nth_list_update)
next
  case False
  assume "wf_board b"
  with False show ?thesis by (simp add: place_def list_update_beyond)
qed

lemma place_nth:
  "wf_board b \<Longrightarrow> r < 3 \<Longrightarrow> c < 3 \<Longrightarrow>
   place b r c v ! i ! j = (if i = r \<and> j = c then v else b ! i ! j)"
  using wf_board_nth [of b r] by (auto simp: place_def nth_list_update)

lemma collect_map_Inr:
  "(\<And>x. x \<in> set xs \<Longrightarrow> f x = Inr (g x)) \<Longrightarrow> collect (map f xs) = Inr (map g xs)"
  by (induction xs) (simp_all add: and_then_def)

lemma positions_bound: "(i, j) \<in> set positions \<longleftrightarrow> i < 3 \<and> j < 3"
  by (auto simp: positions_def)

lemma free_cells_wf: "wf_board b \<Longrightarrow> free_cells b = Inr (empty_cells b)"
proof -
  assume wf: "wf_board b"
  have "collect (map (\<lambda>(i, j). and_then (getitem2 b i j) (\<lambda>cell. Inr ((i, j), cell = FREE_SPACE)))
          positions)
        = Inr (map (\<lambda>(i, j). ((i, j), b ! i ! j = FREE_SPACE)) positions)"
    by (rule collect_map_Inr) (auto simp: positions_bound getitem2_wf [OF wf] and_then_def)
  then show ?thesis
    unfolding free_cells_def empty_cells_def positions_def [symmetric]
    by (simp add: and_then_def filter_map comp_def case_prod_unfold)
qed

lemma generate_keyboard_wf: "wf_board b \<Longrightarrow> generate_keyboard b = Inr (keyboard_of b)"
proof -
  assume wf: "wf_board b"
  have inner: "collect (map (\<lambda>r. and_then (getitem2 b r c) (\<lambda>cell.
                   Inr (InlineKeyboardButton cell (str r @ str c)))) [0..<3])
               = Inr (map (\<lambda>r. InlineKeyboardButton (b ! r ! c) (str r @ str c)) [0..<3])"
    if "c < 3" for c
    by (rule collect_map_Inr) (use that in \<open>auto simp: getitem2_wf [OF wf] and_then_def\<close>)
  show ?thesis
    unfolding generate_keyboard_def keyboard_of_def
    by (rule collect_map_Inr) (auto simp: inner)
qed

lemma str_digit: "n < 10 \<Longrightarrow> str n = [''0123456789'' ! n]"
  by (simp add: str.simps)

lemma int_char_digit: "n < 10 \<Longrightarrow> int_char (''0123456789'' ! n) = Inr n"
proof -
  assume "n < 10"
  then have "n \<in> {0, 1, 2, 3, 4, 5, 6, 7, 8, 9}" by auto
  then show ?thesis by (auto simp: int_char_def)
qed

lemma parse_move_str: "r < 10 \<Longrightarrow> c < 10 \<Longrightarrow> parse_move (str r @ str c) = Inr (r, c)"
  by (simp add: parse_move_def str_digit int_char_digit and_then_def)

lemma game_wf:
  assumes "wf_board b" "r < 3" "c < 3"
  shows "game (str r @ str c) b k =
    (if b ! r ! c \<noteq> FREE_SPACE then (Inr ([Reply_text OCCUPIED_TEXT None], CONTINUE_GAME), b)
     else if hasWon_spec (place b r c CROSS) CROSS
       then (Inr ([Reply_text YOU_WON_TEXT None], FINISH_GAME), place b r c CROSS)
     else if empty_cells (place b r c CROSS) = []
       then (Inr ([Reply_text DRAW_TEXT None], FINISH_GAME), place b r c CROSS)
     else (let cells = empty_cells (place b r c CROSS);
               p = cells ! (k mod length cells);
               b' = place (place b r c CROSS) (fst p) (snd p) ZERO
           in if hasWon_spec b' ZERO then (Inr ([Reply_text AI_WON_TEXT None], FINISH_GAME), b')
              else (Inr ([Edit_message_text TURN_TEXT (keyboard_of b')], CONTINUE_GAME), b')))"
proof -
  let ?b1 = "place b r c CROSS"
  have wf1: "wf_board ?b1" using assms(1) by (rule wf_board_place)
  have parse: "parse_move (str r @ str c) = Inr (r, c)"
    using assms(2,3) by (simp add: parse_move_str)
  show ?thesis
  proof (cases "empty_cells ?b1 = []")
    case True
    then show ?thesis
      by (simp add: game_def attempt_def parse getitem2_wf assms setitem2_wf won_wf wf1
          free_cells_wf ai_turn_def draw_check_def)
  next
    case False
    define p where "p = empty_cells ?b1 ! (k mod length (empty_cells ?b1))"
    from False have "p \<in> set (empty_cells ?b1)"
      unfolding p_def by (simp add: nth_mem)
    then have bound: "fst p < 3" "snd p < 3"
      by (auto simp: empty_cells_def positions_bound)
    have wf2: "wf_board (place ?b1 (fst p) (snd p) ZERO)" using wf1 by (rule wf_board_place)
    have ch: "choice k (empty_cells ?b1) = Inr p"
      using False by (simp add: choice_def p_def)
    show ?thesis
      using False
      by (simp add: game_def attempt_def parse getitem2_wf assms setitem2_wf won_wf wf1 wf2
          free_cells_wf ai_turn_def draw_check_def ch bound generate_keyboard_wf
          case_prod_unfold Let_def p_def [symmetric])
  qed
qed

lemma place_other: "(i, j) \<noteq> (r, c) \<Longrightarrow> place b r c v ! i ! j = b ! i ! j"
  by (cases "r < length b"; cases "i = r") (auto simp: place_def list_update_beyond)

lemma place_same: "wf_board b \<Longrightarrow> r < 3 \<Longrightarrow> c < 3 \<Longrightarrow> place b r c v ! r ! c = v"
  by (simp add: place_nth)

lemma texts_distinct:
  "OCCUPIED_TEXT \<noteq> YOU_WON_TEXT" "OCCUPIED_TEXT \<noteq> AI_WON_TEXT" "OCCUPIED_TEXT \<noteq> DRAW_TEXT"
  "YOU_WON_TEXT \<noteq> AI_WON_TEXT" "YOU_WON_TEXT \<noteq> DRAW_TEXT" "AI_WON_TEXT \<noteq> DRAW_TEXT"
  "YOU_WON_TEXT \<noteq> OCCUPIED_TEXT" "AI_WON_TEXT \<noteq> OCCUPIED_TEXT" "DRAW_TEXT \<noteq> OCCUPIED_TEXT"
  "AI_WON_TEXT \<noteq> YOU_WON_TEXT" "DRAW_TEXT \<noteq> YOU_WON_TEXT" "DRAW_TEXT \<noteq> AI_WON_TEXT"
  by (simp_all add: OCCUPIED_TEXT_def YOU_WON_TEXT_def AI_WON_TEXT_def DRAW_TEXT_def)

lemma outcome_of_simps:
  "outcome_of (Reply_text OCCUPIED_TEXT None) = Some ILLEGAL_MOVE"
  "outcome_of (Reply_text YOU_WON_TEXT None) = Some PLAYER_WIN"
  "outcome_of (Reply_text AI_WON_TEXT None) = Some OPPONENT_WIN"
  "outcome_of (Reply_text DRAW_TEXT None) = Some DRAW"
  "outcome_of (Edit_message_text TURN_TEXT kb) = Some ONGOING"
  by (simp_all add: outcome_of_def texts_distinct)

lemma transpose_3x3:
  "transpose [[a0, a1, a2], [b0, b1, b2], [c0, c1, c2]]
   = [[a0, b0, c0], [a1, b1, c1], [a2, b2, c2]]"
  by (simp add: transpose.simps)

lemma marks_distinct:
  "CROSS \<noteq> FREE_SPACE" "ZERO \<noteq> FREE_SPACE" "CROSS \<noteq> ZERO"
  "FREE_SPACE \<noteq> CROSS" "FREE_SPACE \<noteq> ZERO" "ZERO \<noteq> CROSS"
  by (simp_all add: CROSS_def ZERO_def FREE_SPACE_def)

lemma positions_eq:
  "positions = [(0, 0), (0, 1), (0, 2), (1, 0), (1, 1), (1, 2), (2, 0), (2, 1), (2, 2)]"
  by (simp add: positions_def upt_3)

lemma distinct_positions: "distinct positions"
  by (simp add: positions_eq)

lemma concat_wf: "wf_board b \<Longrightarrow> concat b = map (\<lambda>(i, j). b ! i ! j) positions"
  by (erule wf_boardE) (simp add: positions_eq)

lemma count_mark_wf:
  "wf_board b \<Longrightarrow> count_mark b mark = length (filter (\<lambda>(i, j). b ! i ! j = mark) positions)"
  by (simp add: count_mark_def concat_wf filter_map comp_def case_prod_unfold)

lemma length_empty_cells: "wf_board b \<Longrightarrow> length (empty_cells b) = count_mark b FREE_SPACE"
  by (simp add: count_mark_wf empty_cells_def)

lemma three_way_count:
  assumes "list_all (\<lambda>x. x = a \<or> x = b \<or> x = c) xs" and "a \<noteq> b" and "a \<noteq> c" and "b \<noteq> c"
  shows "length (filter (\<lambda>x. x = a) xs) + length (filter (\<lambda>x. x = b) xs)
         + length (filter (\<lambda>x. x = c) xs) = length xs"
  using assms by (induction xs) auto

lemma balanced_odd_empty:
  assumes "wf_board b" and "marks_balanced b"
  shows "odd (length (empty_cells b))"
proof -
  have "length (concat b) = 9"
    using assms(1) by (simp add: concat_wf positions_eq)
  moreover have "count_mark b FREE_SPACE + count_mark b CROSS + count_mark b ZERO
                 = length (concat b)"
    unfolding count_mark_def
    using assms(2) by (intro three_way_count) (simp_all add: marks_balanced_def marks_distinct)
  moreover have "count_mark b CROSS = count_mark b ZERO"
    using assms(2) by (simp add: marks_balanced_def)
  ultimately have "count_mark b FREE_SPACE + 2 * count_mark b ZERO = 9" by simp
  then have "odd (count_mark b FREE_SPACE)" by presburger
  then show ?thesis using assms(1) by (simp add: length_empty_cells)
qed

lemma empty_cells_place:
  assumes "wf_board b" and "r < 3" and "c < 3" and "v \<noteq> FREE_SPACE"
  shows "empty_cells (place b r c v) = removeAll (r, c) (empty_cells b)"
proof -
  have "filter (\<lambda>(i, j). place b r c v ! i ! j = FREE_SPACE) positions
        = filter (\<lambda>p. p \<noteq> (r, c) \<and> (case p of (i, j) \<Rightarrow> b ! i ! j = FREE_SPACE)) positions"
    by (rule filter_cong) (auto simp: place_nth [OF assms(1-3)] assms(4))
  then show ?thesis
    by (simp add: empty_cells_def removeAll_filter_not_eq conj_commute eq_commute)
qed

lemma distinct_empty_cells: "distinct (empty_cells b)"
  by (simp add: empty_cells_def distinct_positions)

lemma length_empty_cells_place:
  assumes "wf_board b" and "r < 3" and "c < 3" and "v \<noteq> FREE_SPACE" and "b ! r ! c = FREE_SPACE"
  shows "Suc (length (empty_cells (place b r c v))) = length (empty_cells b)"
proof -
  have mem: "(r, c) \<in> set (empty_cells b)"
    using assms(2,3,5) by (simp add: empty_cells_def positions_bound)
  then have "length (empty_cells b) > 0" by (cases "empty_cells b") auto
  moreover have "length (removeAll (r, c) (empty_cells b)) = length (empty_cells b) - 1"
    using mem distinct_empty_cells [of b]
    by (simp add: distinct_remove1_removeAll [symmetric] length_remove1)
  ultimately show ?thesis using assms by (simp add: empty_cells_place)
qed

lemma str_0: "str 0 = ''0''" and str_1: "str 1 = ''1''" and str_2: "str 2 = ''2''"
  by (simp_all add: str_digit)

section \<open>Facts about the patterns\<close>

lemma game_patterns_eq:
  "game_patterns = [''^00$'', ''^01$'', ''^02$'', ''^10$'', ''^11$'', ''^12$'',
                    ''^20$'', ''^21$'', ''^22$'']"
  by code_simp

lemma re_match_anchored:
  "a \<noteq> CHR ''^'' \<Longrightarrow> a \<noteq> CHR ''$'' \<Longrightarrow> b \<noteq> CHR ''^'' \<Longrightarrow> b \<noteq> CHR ''$'' \<Longrightarrow>
   re_match ([CHR ''^'', a, b, CHR ''$'']) s \<longleftrightarrow> s = [a, b] \<or> s = [a, b, CHR 0x0A]"
  by (auto simp: re_match_def split: list.splits)

lemma reaches_game_iff:
  "reaches_game data \<longleftrightarrow> list_ex (\<lambda>d. data = d \<or> data = d @ [CHR 0x0A]) move_data"
  unfolding reaches_game_def game_patterns_eq move_data_def
  by (simp add: re_match_anchored)

lemma move_data_in_range:
  "list_all (\<lambda>data. case parse_move data of Inl e \<Rightarrow> False | Inr (r, c) \<Rightarrow> r < 3 \<and> c < 3)
     move_data"
  by code_simp

section \<open>Facts about the store\<close>

lemma DEFAULT_STATE_eq: "DEFAULT_STATE = 3"
  by code_simp

lemma module_heap_simps:
  "next_addr module_heap = 4"
  "grids module_heap = (\<lambda>a. [])(3 := [0, 1, 2])"
  by (simp_all add: module_heap_def module_init_def new_row_def new_grid_def empty_heap_def
      eval_nat_numeral)

lemma heap_inv_module: "heap_inv module_heap"
  unfolding heap_inv_def DEFAULT_STATE_eq
proof (intro conjI allI impI)
  show "3 < next_addr module_heap" by (simp add: module_heap_simps)
  show "board_at module_heap 3 = default_board" by code_simp
next
  fix g a assume "a \<in> set (grids module_heap g)"
  then show "g < next_addr module_heap" "a < next_addr module_heap"
    by (auto simp: module_heap_simps split: if_splits)
next
  fix g g' :: nat assume "g \<noteq> g'"
  then show "set (grids module_heap g) \<inter> set (grids module_heap g') = {}"
    by (auto simp: module_heap_simps)
next
  fix g show "distinct (grids module_heap g)"
    by (simp add: module_heap_simps)
qed

lemma deepcopy_rows_spec:
  assumes "deepcopy_rows memo as h = (out, h')"
    and "\<forall>a \<in> set as. a < next_addr h"
    and "\<forall>(a, a') \<in> set memo. a < next_addr h \<and> n \<le> a' \<and> a' < next_addr h \<and> rows h a' = rows h a"
    and "n \<le> next_addr h"
  shows "next_addr h \<le> next_addr h' \<and> grids h' = grids h
         \<and> (\<forall>a < next_addr h. rows h' a = rows h a)
         \<and> (\<forall>a' \<in> set out. n \<le> a' \<and> a' < next_addr h')
         \<and> map (rows h') out = map (rows h) as"
  using assms
proof (induction as arbitrary: memo h out h')
  case Nil
  then show ?case by simp
next
  case (Cons a as)
  show ?case
  proof (cases "map_of memo a")
    case (Some a')
    obtain out0 where rec: "deepcopy_rows memo as h = (out0, h')" and out: "out = a' # out0"
      using Cons.prems(1) Some by (auto split: prod.splits)
    have IH: "next_addr h \<le> next_addr h' \<and> grids h' = grids h
         \<and> (\<forall>a < next_addr h. rows h' a = rows h a)
         \<and> (\<forall>a' \<in> set out0. n \<le> a' \<and> a' < next_addr h')
         \<and> map (rows h') out0 = map (rows h) as"
      using Cons.IH [OF rec] Cons.prems(2-4) by simp
    from Some have "(a, a') \<in> set memo" by (rule map_of_SomeD)
    with Cons.prems(3) have a': "n \<le> a'" "a' < next_addr h" "rows h a' = rows h a" by auto
    with IH out show ?thesis by auto
  next
    case None
    define a' where "a' = next_addr h"
    define h1 where "h1 = h\<lparr>rows := (rows h)(a' := rows h a), next_addr := Suc a'\<rparr>"
    obtain out0 where rec: "deepcopy_rows ((a, a') # memo) as h1 = (out0, h')"
      and out: "out = a' # out0"
      using Cons.prems(1) None by (auto simp: new_row_def a'_def h1_def split: prod.splits)
    have lt: "a < a'" using Cons.prems(2) by (simp add: a'_def)
    have p2: "\<forall>x \<in> set as. x < next_addr h1" using Cons.prems(2) by (auto simp: h1_def a'_def)
    have p3: "\<forall>(b, b') \<in> set ((a, a') # memo).
                b < next_addr h1 \<and> n \<le> b' \<and> b' < next_addr h1 \<and> rows h1 b' = rows h1 b"
      using Cons.prems(3,4) lt by (auto simp: h1_def a'_def)
    have p4: "n \<le> next_addr h1" using Cons.prems(4) by (simp add: h1_def a'_def)
    have IH: "next_addr h1 \<le> next_addr h' \<and> grids h' = grids h1
         \<and> (\<forall>x < next_addr h1. rows h' x = rows h1 x)
         \<and> (\<forall>x \<in> set out0. n \<le> x \<and> x < next_addr h')
         \<and> map (rows h') out0 = map (rows h1) as"
      using Cons.IH [OF rec p2 p3 p4] .
    have old: "rows h1 x = rows h x" if "x < next_addr h" for x
      using that by (simp add: h1_def a'_def)
    have "map (rows h1) as = map (rows h) as"
      using Cons.prems(2) by (auto simp: old)
    moreover have "rows h' a' = rows h a" using IH by (simp add: h1_def)
    moreover have "rows h' x = rows h x" if "x < next_addr h" for x
      using IH that old by (simp add: h1_def a'_def)
    moreover have "n \<le> a'" "a' < next_addr h'" "next_addr h \<le> next_addr h'"
      using IH Cons.prems(4) by (simp_all add: h1_def a'_def)
    moreover have "grids h' = grids h" using IH by (simp add: h1_def)
    ultimately show ?thesis using IH out by auto
  qed
qed

lemma deepcopy_rows_distinct:
  assumes "deepcopy_rows memo as h = (out, h')"
    and "distinct as" and "set as \<inter> fst ` set memo = {}"
  shows "distinct out \<and> (\<forall>a' \<in> set out. next_addr h \<le> a')"
  using assms
proof (induction as arbitrary: memo h out h')
  case Nil
  then show ?case by simp
next
  case (Cons a as)
  from Cons.prems(3) have "map_of memo a = None"
    by (auto simp: map_of_eq_None_iff)
  then obtain out0 where rec: "deepcopy_rows ((a, next_addr h) # memo) as
        (h\<lparr>rows := (rows h)(next_addr h := rows h a), next_addr := Suc (next_addr h)\<rparr>) = (out0, h')"
    and out: "out = next_addr h # out0"
    using Cons.prems(1) by (auto simp: new_row_def split: prod.splits)
  have "distinct out0 \<and> (\<forall>a' \<in> set out0. Suc (next_addr h) \<le> a')"
    using Cons.IH [OF rec] Cons.prems(2,3) by auto
  with out show ?case by auto
qed

lemma deepcopy_distinct:
  assumes "deepcopy x h = (y, h')" and "distinct (grids h x)"
  shows "distinct (grids h' y)"
proof -
  obtain out h1 where rec: "deepcopy_rows [] (grids h x)
      (h\<lparr>grids := (grids h)(next_addr h := []), next_addr := Suc (next_addr h)\<rparr>) = (out, h1)"
    by (cases "deepcopy_rows [] (grids h x)
      (h\<lparr>grids := (grids h)(next_addr h := []), next_addr := Suc (next_addr h)\<rparr>)")
  with assms(1) have "grids h' y = out"
    by (auto simp: deepcopy_def new_grid_def)
  with deepcopy_rows_distinct [OF rec assms(2)] show ?thesis by simp
qed

lemma deepcopy_spec:
  assumes "deepcopy x h = (y, h')" and "\<forall>a \<in> set (grids h x). a < next_addr h"
  shows "y = next_addr h \<and> next_addr h < next_addr h'
         \<and> (\<forall>g. g \<noteq> y \<longrightarrow> grids h' g = grids h g)
         \<and> (\<forall>a < next_addr h. rows h' a = rows h a)
         \<and> (\<forall>a \<in> set (grids h' y). y < a \<and> a < next_addr h')
         \<and> board_at h' y = board_at h x"
proof -
  define h0 where "h0 = h\<lparr>grids := (grids h)(next_addr h := []), next_addr := Suc (next_addr h)\<rparr>"
  obtain out h1 where rec: "deepcopy_rows [] (grids h x) h0 = (out, h1)"
    by (cases "deepcopy_rows [] (grids h x) h0")
  with assms(1) have y: "y = next_addr h" and h': "h' = h1\<lparr>grids := (grids h1)(y := out)\<rparr>"
    by (auto simp: deepcopy_def new_grid_def h0_def)
  have "next_addr h0 \<le> next_addr h1 \<and> grids h1 = grids h0
         \<and> (\<forall>a < next_addr h0. rows h1 a = rows h0 a)
         \<and> (\<forall>a' \<in> set out. Suc y \<le> a' \<and> a' < next_addr h1)
         \<and> map (rows h1) out = map (rows h0) (grids h x)"
    using rec assms(2) by (intro deepcopy_rows_spec [where memo = "[]"]) (auto simp: h0_def y)
  then show ?thesis
    using y by (auto simp: h' h0_def board_at_def)
qed


lemma heap_inv_deepcopy:
  assumes "heap_inv h" and "get_default_state h = (y, h')"
  shows "heap_inv h' \<and> y = next_addr h \<and> next_addr h < next_addr h' \<and> y \<noteq> DEFAULT_STATE
         \<and> board_at h' y = default_board
         \<and> (\<forall>g. g \<noteq> y \<longrightarrow> grids h' g = grids h g)
         \<and> (\<forall>a < next_addr h. rows h' a = rows h a)
         \<and> (\<forall>a \<in> set (grids h' y). next_addr h < a \<and> a < next_addr h')"
proof -
  from assms(1) have d: "DEFAULT_STATE < next_addr h" "board_at h DEFAULT_STATE = default_board"
    and closed: "\<And>g a. a \<in> set (grids h g) \<Longrightarrow> g < next_addr h \<and> a < next_addr h"
    and disj: "\<And>g g'. g \<noteq> g' \<Longrightarrow> set (grids h g) \<inter> set (grids h g') = {}"
    and dist: "\<And>g. distinct (grids h g)"
    by (auto simp: heap_inv_def)
  have dist_y: "distinct (grids h' y)"
    using assms(2) dist [of DEFAULT_STATE] unfolding get_default_state_def
    by (rule deepcopy_distinct)
  have "\<forall>a \<in> set (grids h DEFAULT_STATE). a < next_addr h" using closed by blast
  with assms(2) have sp: "y = next_addr h" "next_addr h < next_addr h'"
    "\<And>g. g \<noteq> y \<Longrightarrow> grids h' g = grids h g"
    "\<And>a. a < next_addr h \<Longrightarrow> rows h' a = rows h a"
    "\<And>a. a \<in> set (grids h' y) \<Longrightarrow> y < a \<and> a < next_addr h'"
    "board_at h' y = board_at h DEFAULT_STATE"
    using deepcopy_spec [of DEFAULT_STATE h y h'] by (auto simp: get_default_state_def)
  have ne: "y \<noteq> DEFAULT_STATE" using d(1) sp(1) by simp
  have old_board: "board_at h' g = board_at h g" if "g \<noteq> y" for g
    using closed [of _ g] sp(4) by (auto simp: board_at_def sp(3) [OF that])
  have closed': "g < next_addr h' \<and> a < next_addr h'" if "a \<in> set (grids h' g)" for g a
  proof (cases "g = y")
    case True with that sp(1,2,5) show ?thesis by auto
  next
    case False
    with that closed [of a g] sp(2,3) show ?thesis by auto
  qed
  have disj': "set (grids h' g) \<inter> set (grids h' g') = {}" if "g \<noteq> g'" for g g'
  proof -
    have one: "set (grids h' y) \<inter> set (grids h' g0) = {}" if "g0 \<noteq> y" for g0
      using sp(5) closed [of _ g0] sp(1) sp(3) [OF that] by fastforce
    show ?thesis
    proof (cases "g = y")
      case True with that one [of g'] show ?thesis by auto
    next
      case False
      show ?thesis
      proof (cases "g' = y")
        case True with False one [of g] show ?thesis by auto
      next
        case False
        with \<open>g \<noteq> y\<close> disj [OF that] sp(3) show ?thesis by simp
      qed
    qed
  qed
  have dist': "distinct (grids h' g)" for g
    using dist_y dist [of g] sp(3) [of g] by (cases "g = y") simp_all
  have "heap_inv h'"
    unfolding heap_inv_def
    using d sp(2) old_board [of DEFAULT_STATE] ne closed' disj' dist' by auto
  with sp ne d(2) show ?thesis by auto
qed

lemma heap_setitem2_frame:
  assumes "heap_setitem2 g r c v h = Inr h'"
  shows "grids h' = grids h \<and> next_addr h' = next_addr h
         \<and> (\<forall>a. a \<notin> set (grids h g) \<longrightarrow> rows h' a = rows h a)"
  using assms
  by (auto simp: heap_setitem2_def getitem_def and_then_def split: if_splits)

lemma heap_setitem2_other_board:
  assumes "heap_setitem2 g r c v h = Inr h'" and "set (grids h g) \<inter> set (grids h g') = {}"
  shows "board_at h' g' = board_at h g'"
  using heap_setitem2_frame [OF assms(1)] assms(2) by (auto simp: board_at_def)

lemma heap_inv_setitem2:
  assumes "heap_inv h" and "heap_setitem2 g r c v h = Inr h'" and "g \<noteq> DEFAULT_STATE"
  shows "heap_inv h'"
proof -
  from assms(1) have disj: "set (grids h g) \<inter> set (grids h DEFAULT_STATE) = {}"
    using assms(3) by (simp add: heap_inv_def)
  have "board_at h' DEFAULT_STATE = board_at h DEFAULT_STATE"
    using assms(2) disj by (rule heap_setitem2_other_board)
  with assms(1) heap_setitem2_frame [OF assms(2)] show ?thesis
    by (simp add: heap_inv_def)
qed

lemma ctx_inv_reset:
  assumes "ctx_inv ctx"
  shows "ctx_inv (snd (reset_state ctx))"
proof -
  obtain y h' where g: "get_default_state (store ctx) = (y, h')"
    by (cases "get_default_state (store ctx)")
  from assms have "heap_inv (store ctx)" by (simp add: ctx_inv_def)
  from heap_inv_deepcopy [OF this g] show ?thesis
    by (simp add: ctx_inv_def reset_state_def g)
qed

lemma snd_handlers:
  "snd (start ctx) = snd (reset_state ctx)"
  "snd (end_handler ctx) = snd (reset_state ctx)"
  "snd (stop ctx) = snd (reset_state ctx)"
  by (auto simp: start_def end_handler_def stop_def attempt_def split: prod.splits sum.splits)

lemma reach_inv: "reach ctx \<Longrightarrow> ctx_inv ctx"
proof (induction rule: reach.induct)
  case init
  show ?case by (simp add: ctx_inv_def initial_context_def heap_inv_module)
next
  case (start ctx)
  from ctx_inv_reset [OF start.IH] show ?case
    by (simp add: snd_handlers)
next
  case (end_handler ctx)
  from ctx_inv_reset [OF end_handler.IH] show ?case
    by (simp add: snd_handlers)
next
  case (stop ctx)
  from ctx_inv_reset [OF stop.IH] show ?case
    by (simp add: snd_handlers)
next
  case (game_store ctx r c v)
  show ?case
  proof (cases "keyboard_state ctx")
    case None
    with game_store.IH show ?thesis by (simp add: store_cell_def)
  next
    case (Some g)
    show ?thesis
    proof (cases "heap_setitem2 g r c v (store ctx)")
      case (Inl e)
      with Some game_store.IH show ?thesis by (simp add: store_cell_def)
    next
      case (Inr h)
      from game_store.IH Some have "heap_inv (store ctx)" "g \<noteq> DEFAULT_STATE"
        "g < next_addr (store ctx)"
        by (auto simp: ctx_inv_def)
      with Inr Some show ?thesis
        using heap_inv_setitem2 [of "store ctx" g r c v h]
          heap_setitem2_frame [of g r c v "store ctx" h]
        by (auto simp: ctx_inv_def store_cell_def)
    qed
  qed
qed

lemma reset_independent:
  assumes "heap_inv h" and "get_default_state h = (y, h')"
  shows "independent_of_earlier h h' y"
proof -
  from assms(1) have closed: "\<And>g a. a \<in> set (grids h g) \<Longrightarrow> g < next_addr h \<and> a < next_addr h"
    by (auto simp: heap_inv_def)
  from heap_inv_deepcopy [OF assms] have inv': "heap_inv h'" and y: "y = next_addr h"
    and grids: "\<And>g. g \<noteq> y \<Longrightarrow> grids h' g = grids h g"
    and rows: "\<And>a. a < next_addr h \<Longrightarrow> rows h' a = rows h a"
    by auto
  from inv' have disj: "\<And>g g'. g \<noteq> g' \<Longrightarrow> set (grids h' g) \<inter> set (grids h' g') = {}"
    by (auto simp: heap_inv_def)
  show ?thesis
    unfolding independent_of_earlier_def
  proof (intro allI impI conjI)
    fix g assume g: "g < next_addr h"
    then have ne: "g \<noteq> y" using y by simp
    show "board_at h' g = board_at h g"
      using closed [of _ g] rows by (auto simp: board_at_def grids [OF ne])
    fix r c v h''
    show "board_at h'' y = board_at h' y" if "heap_setitem2 g r c v h' = Inr h''"
      using that disj [OF ne] by (rule heap_setitem2_other_board)
    show "board_at h'' g = board_at h' g" if "heap_setitem2 y r c v h' = Inr h''"
      using that disj [OF ne [symmetric]] by (rule heap_setitem2_other_board)
  qed
qed

lemma default_board_wf: "wf_board default_board"
  by (simp add: default_board_def wf_board_def list_all_iff)

lemma default_board_eq:
  "default_board = [[''.'', ''.'', ''.''], [''.'', ''.'', ''.''], [''.'', ''.'', ''.'']]"
  by (simp add: default_board_def FREE_SPACE_def eval_nat_numeral)

lemma map_fun_upd_distinct:
  assumes "distinct xs" and "r < length xs"
  shows "map (f(xs ! r := y)) xs = (map f xs)[r := y]"
  using assms by (auto intro!: nth_equalityI simp: nth_list_update nth_eq_iff_index_eq)

lemma heap_setitem2_refines:
  assumes "distinct (grids h g)"
  shows "map_sum id (\<lambda>h'. board_at h' g) (heap_setitem2 g r c v h)
         = setitem2 (board_at h g) r c v"
  using assms
  by (simp add: heap_setitem2_def setitem2_def getitem_def and_then_def board_at_def
      map_fun_upd_distinct)

lemma session_store_refines:
  assumes "reach ctx"
  shows "map_sum id (\<lambda>h'. board_at h' g) (heap_setitem2 g r c v (store ctx))
         = setitem2 (board_at (store ctx) g) r c v"
proof -
  from assms have "distinct (grids (store ctx) g)"
    by (auto dest: reach_inv simp: ctx_inv_def heap_inv_def)
  then show ?thesis by (rule heap_setitem2_refines)
qed

lemma reach_reset:
  assumes "reach ctx"
  shows "\<exists>y h'. reset_state ctx = (y, ctx\<lparr>store := h', keyboard_state := Some y\<rparr>)
           \<and> board_at h' y = default_board
           \<and> independent_of_earlier (store ctx) h' y"
proof -
  obtain y h' where g: "get_default_state (store ctx) = (y, h')"
    by (cases "get_default_state (store ctx)")
  from assms have inv: "heap_inv (store ctx)"
    by (auto dest: reach_inv simp: ctx_inv_def)
  from heap_inv_deepcopy [OF inv g] have "board_at h' y = default_board" by (elim conjE)
  moreover have "independent_of_earlier (store ctx) h' y"
    using inv g by (rule reset_independent)
  moreover have "reset_state ctx = (y, ctx\<lparr>store := h', keyboard_state := Some y\<rparr>)"
    by (simp add: reset_state_def g)
  ultimately show ?thesis by blast
qed

lemma reach_reset_session:
  assumes "reach ctx"
  shows "session_board (snd (reset_state ctx)) = Some default_board"
  using reach_reset [OF assms] by (auto simp: session_board_def)

lemma reach_played: "reach played_context"
  unfolding played_context_def by (intro reach.game_store reach.start reach.init)

lemma played_board:
  "session_board played_context
     = Some [[''X'', ''X'', ''X''], [''O'', ''O'', ''.''], [''.'', ''.'', ''.'']]"
  by code_simp

section \<open>Facts about boards in play\<close>

lemma int_char_Inr: "int_char ch = Inr n \<Longrightarrow> n < 10 \<and> ch = ''0123456789'' ! n"
  by (auto simp: int_char_def split: if_splits)

lemma parse_move_Inr:
  assumes "parse_move data = Inr (r, c)"
  shows "r < 10 \<and> c < 10 \<and> data = str r @ str c"
proof -
  from assms obtain x y where data: "data = [x, y]"
    by (auto simp: parse_move_def split: list.splits)
  with assms have "int_char x = Inr r" "int_char y = Inr c"
    by (auto simp: parse_move_def and_then_def split: sum.splits)
  then show ?thesis using data by (auto dest!: int_char_Inr simp: str_digit)
qed

lemma count_mark_place:
  assumes "wf_board b" and "r < 3" and "c < 3" and "b ! r ! c \<noteq> m"
  shows "count_mark (place b r c v) m = count_mark b m + (if v = m then 1 else 0)"
proof -
  let ?P = "\<lambda>p. (case p of (i, j) \<Rightarrow> b ! i ! j = m)"
  have mem: "(r, c) \<in> set positions" using assms(2,3) by (simp add: positions_bound)
  have "{p \<in> set positions. case p of (i, j) \<Rightarrow> place b r c v ! i ! j = m}
        = (if v = m then insert (r, c) {p \<in> set positions. ?P p} else {p \<in> set positions. ?P p})"
    using assms(4) mem by (auto simp: place_nth [OF assms(1-3)] positions_bound)
  moreover have "(r, c) \<notin> {p \<in> set positions. ?P p}" using assms(4) by simp
  moreover have "finite {p \<in> set positions. ?P p}" by simp
  ultimately show ?thesis
    using assms(1) wf_board_place [OF assms(1), of r c v]
    by (simp add: count_mark_wf distinct_length_filter distinct_positions Int_def conj_commute)
qed


lemma cells_place:
  assumes "wf_board b" and "r < 3" and "c < 3" and "Q v" and "list_all Q (concat b)"
  shows "list_all Q (concat (place b r c v))"
proof -
  have "Q (b ! i ! j)" if "i < 3" "j < 3" for i j
    using assms(5) that unfolding concat_wf [OF assms(1)] list_all_iff
    by (auto dest!: bspec [where x = "(i, j)"] simp: positions_bound)
  then show ?thesis
    using assms(4)
    by (auto simp: concat_wf [OF wf_board_place [OF assms(1)]] list_all_iff positions_bound
        place_nth [OF assms(1-3)])
qed

lemma marks_balanced_move:
  assumes "wf_board b" and "marks_balanced b" and "r < 3" and "c < 3"
    and "b ! r ! c = FREE_SPACE" and "p \<in> set (empty_cells (place b r c CROSS))"
  shows "marks_balanced (place (place b r c CROSS) (fst p) (snd p) ZERO)"
proof -
  let ?b1 = "place b r c CROSS"
  have wf1: "wf_board ?b1" using assms(1) by (rule wf_board_place)
  from assms(6) have bound: "fst p < 3" "snd p < 3" and free: "?b1 ! fst p ! snd p = FREE_SPACE"
    by (auto simp: empty_cells_def positions_bound)
  have "count_mark ?b1 CROSS = count_mark b CROSS + 1" "count_mark ?b1 ZERO = count_mark b ZERO"
    using assms(1,3-5) by (simp_all add: count_mark_place marks_distinct)
  moreover have "count_mark (place ?b1 (fst p) (snd p) ZERO) CROSS = count_mark ?b1 CROSS"
    "count_mark (place ?b1 (fst p) (snd p) ZERO) ZERO = count_mark ?b1 ZERO + 1"
    using wf1 bound free by (simp_all add: count_mark_place marks_distinct)
  moreover have "list_all (\<lambda>cell. cell = FREE_SPACE \<or> cell = CROSS \<or> cell = ZERO)
                   (concat (place ?b1 (fst p) (snd p) ZERO))"
    using assms(1-4) wf1 bound by (intro cells_place) (simp_all add: marks_balanced_def)
  ultimately show ?thesis
    using assms(2) by (simp add: marks_balanced_def)
qed

lemma getitem2_Inr_wf:
  "wf_board b \<Longrightarrow> getitem2 b r c = Inr cell \<Longrightarrow> r < 3 \<and> c < 3"
  by (auto simp: getitem2_def getitem_def and_then_def wf_board_def list_all_length
      split: if_splits)

lemma in_play_balanced: "in_play b \<Longrightarrow> wf_board b \<and> marks_balanced b"
proof (induction rule: in_play.induct)
  case fresh
  show ?case
    by (simp add: default_board_wf) (simp add: default_board_eq marks_balanced_def count_mark_def
        FREE_SPACE_def CROSS_def ZERO_def)
next
  case (move b data k acts b')
  then have wf: "wf_board b" and bal: "marks_balanced b" by simp_all
  obtain r c where parse: "parse_move data = Inr (r, c)"
    using move.hyps(2) by (cases "parse_move data") (auto simp: game_def attempt_def)
  then have data: "data = str r @ str c" by (simp add: parse_move_Inr)
  obtain cell where "getitem2 b r c = Inr cell"
    using move.hyps(2) parse by (cases "getitem2 b r c") (auto simp: game_def attempt_def)
  with wf have bound: "r < 3" "c < 3" by (auto dest: getitem2_Inr_wf)
  let ?b1 = "place b r c CROSS"
  let ?cells = "empty_cells ?b1"
  let ?p = "?cells ! (k mod length ?cells)"
  from move.hyps(2) have cases: "b' = b \<or>
    (b ! r ! c = FREE_SPACE \<and> ?cells \<noteq> [] \<and> b' = place ?b1 (fst ?p) (snd ?p) ZERO)"
    unfolding data game_wf [OF wf bound]
    by (auto simp: Let_def CONTINUE_GAME_def FINISH_GAME_def split: if_splits)
  then show ?case
  proof
    assume "b' = b"
    with wf bal show ?thesis by simp
  next
    assume a: "b ! r ! c = FREE_SPACE \<and> ?cells \<noteq> [] \<and> b' = place ?b1 (fst ?p) (snd ?p) ZERO"
    then have "?p \<in> set ?cells" by (simp add: nth_mem)
    with wf bal bound a have "marks_balanced b'" by (simp add: marks_balanced_move)
    moreover have "wf_board b'" using a wf by (simp add: wf_board_place)
    ultimately show ?thesis by simp
  qed
qed

section \<open>Claims about \<^verbatim>\<open>won\<close>\<close>

text \<open>
  C2. For every board and every mark, \<^verbatim>\<open>won\<close> returns True if and only if at least one of
  the 8 canonical lines (3 rows, 3 columns, 2 diagonals) has all three of its cells equal
  to the mark. In particular a line that holds an EMPTY cell, whatever its other two
  cells, never makes it return True: on a board where each of the 8 lines holds an EMPTY
  cell, \<^verbatim>\<open>won\<close> returns False for a mark that is not EMPTY.
\<close>

theorem won_iff_canonical_line:
  assumes "wf_board board"
  shows "won board mark = Inr (hasWon_spec board mark) \<and>
         (mark \<noteq> FREE_SPACE \<and> list_all (line_has_empty board) canonical_lines
            \<longrightarrow> won board mark = Inr False)"
proof -
  have iff: "won board mark = Inr (hasWon_spec board mark)"
    using assms by (rule won_wf)
  have "\<not> hasWon_spec board mark"
    if "mark \<noteq> FREE_SPACE" and "list_all (line_has_empty board) canonical_lines"
    using that line_with_empty_not_full [of mark board]
    unfolding hasWon_spec_def list_ex_iff list_all_iff by blast
  with iff show ?thesis by simp
qed

theorem won_iff_canonical_line_witness:
  "wf_board [[''X'', ''X'', ''.''], [''O'', ''O'', ''.''], [''.'', ''.'', ''.'']]
   \<and> CROSS \<noteq> FREE_SPACE
   \<and> list_all (line_has_empty [[''X'', ''X'', ''.''], [''O'', ''O'', ''.''], [''.'', ''.'', ''.'']])
        canonical_lines
   \<and> won [[''X'', ''X'', ''.''], [''O'', ''O'', ''.''], [''.'', ''.'', ''.'']] CROSS = Inr False
   \<and> won [[''X'', ''X'', ''X''], [''O'', ''O'', ''.''], [''.'', ''.'', ''.'']] CROSS = Inr True"
proof -
  have wf: "wf_board [[''X'', ''X'', ''.''], [''O'', ''O'', ''.''], [''.'', ''.'', ''.'']]"
    by (simp add: wf_board_def)
  have wf': "wf_board [[''X'', ''X'', ''X''], [''O'', ''O'', ''.''], [''.'', ''.'', ''.'']]"
    by (simp add: wf_board_def)
  have mark: "CROSS \<noteq> FREE_SPACE"
    by (simp add: CROSS_def FREE_SPACE_def)
  have empties:
    "list_all (line_has_empty [[''X'', ''X'', ''.''], [''O'', ''O'', ''.''], [''.'', ''.'', ''.'']])
       canonical_lines"
    by (simp add: canonical_lines_def line_has_empty_def FREE_SPACE_def)
  have full:
    "hasWon_spec [[''X'', ''X'', ''X''], [''O'', ''O'', ''.''], [''.'', ''.'', ''.'']] CROSS"
    by (simp add: hasWon_spec_def canonical_lines_def line_full_def CROSS_def)
  have lost:
    "won [[''X'', ''X'', ''.''], [''O'', ''O'', ''.''], [''.'', ''.'', ''.'']] CROSS = Inr False"
    using won_iff_canonical_line [OF wf, of CROSS] mark empties by blast
  have wins:
    "won [[''X'', ''X'', ''X''], [''O'', ''O'', ''.''], [''.'', ''.'', ''.'']] CROSS = Inr True"
    using won_iff_canonical_line [OF wf', of CROSS] full by simp
  from wf mark empties lost wins show ?thesis
    by (intro conjI)
qed

section \<open>Claims about the move handler\<close>

text \<open>
  In the claims below a move (row, col) reaches the handler as the callback data
  \<open>str r @ str c\<close> of the button pressed, the board is a board of the data model
  (\<open>wf_board\<close>), and \<open>k\<close> is the random draw of the call. The outcome ILLEGAL_MOVE is
  the reply \<open>OCCUPIED_TEXT\<close>, PLAYER_WIN the reply \<open>YOU_WON_TEXT\<close>, OPPONENT_WIN the
  reply \<open>AI_WON_TEXT\<close>, DRAW the reply \<open>DRAW_TEXT\<close> and ONGOING the edited message
  \<open>TURN_TEXT\<close> with the new keyboard; the state AWAITING_MOVE is the return value
  \<open>CONTINUE_GAME\<close> and TERMINAL is \<open>FINISH_GAME\<close>.
\<close>

text \<open>
  C3. For every board and every coordinate (row, col) in [0,2] x [0,2] whose cell is not
  EMPTY, the move handler answers ILLEGAL_MOVE, leaves every cell of the board as it was
  and stays in AWAITING_MOVE.
\<close>

theorem occupied_cell_is_illegal_move:
  assumes "wf_board board" and "r < 3" and "c < 3" and "board ! r ! c \<noteq> FREE_SPACE"
  shows "game (str r @ str c) board k
         = (Inr ([Reply_text OCCUPIED_TEXT None], CONTINUE_GAME), board)"
  using assms by (simp add: game_wf)

theorem occupied_cell_is_illegal_move_witness:
  "wf_board [[''X'', ''X'', ''.''], [''O'', ''O'', ''.''], [''.'', ''.'', ''.'']]
   \<and> (1::nat) < 3
   \<and> [[''X'', ''X'', ''.''], [''O'', ''O'', ''.''], [''.'', ''.'', ''.'']] ! 1 ! 1 \<noteq> FREE_SPACE
   \<and> game ''11'' [[''X'', ''X'', ''.''], [''O'', ''O'', ''.''], [''.'', ''.'', ''.'']] 0
       = (Inr ([Reply_text OCCUPIED_TEXT None], CONTINUE_GAME),
          [[''X'', ''X'', ''.''], [''O'', ''O'', ''.''], [''.'', ''.'', ''.'']])"
proof -
  let ?b = "[[''X'', ''X'', ''.''], [''O'', ''O'', ''.''], [''.'', ''.'', ''.'']]"
  have wf: "wf_board ?b" by (simp add: wf_board_def)
  have lt: "(1::nat) < 3" by simp
  have occ: "?b ! 1 ! 1 \<noteq> FREE_SPACE" by (simp add: FREE_SPACE_def)
  have data: "str 1 @ str 1 = ''11''" by (simp add: str_digit)
  from occupied_cell_is_illegal_move [OF wf lt lt occ, of 0] wf lt occ data
  show ?thesis by simp
qed

text \<open>
  C4. For every board on which the player's move at (row, col) is legal and the cross
  placed there makes \<^verbatim>\<open>won(state, CROSS)\<close> true: the handler answers PLAYER_WIN and moves
  to TERMINAL; the board it leaves is the input board with a cross at (row, col), so no
  opponent mark is placed and every other cell is unchanged.
\<close>

theorem winning_move_ends_game:
  assumes "wf_board board" and "r < 3" and "c < 3" and "board ! r ! c = FREE_SPACE"
    and "won (place board r c CROSS) CROSS = Inr True"
  shows "game (str r @ str c) board k
           = (Inr ([Reply_text YOU_WON_TEXT None], FINISH_GAME), place board r c CROSS)
         \<and> place board r c CROSS ! r ! c = CROSS
         \<and> (\<forall>i j. (i, j) \<noteq> (r, c) \<longrightarrow> place board r c CROSS ! i ! j = board ! i ! j)"
proof -
  from assms(1) have "wf_board (place board r c CROSS)" by (rule wf_board_place)
  with assms(5) have "hasWon_spec (place board r c CROSS) CROSS" by (simp add: won_wf)
  with assms(1-4) show ?thesis by (simp add: game_wf place_other place_same)
qed

theorem winning_move_ends_game_witness:
  "wf_board [[''X'', ''X'', ''.''], [''O'', ''O'', ''.''], [''.'', ''.'', ''.'']]
   \<and> (0::nat) < 3 \<and> (2::nat) < 3
   \<and> [[''X'', ''X'', ''.''], [''O'', ''O'', ''.''], [''.'', ''.'', ''.'']] ! 0 ! 2 = FREE_SPACE
   \<and> won (place [[''X'', ''X'', ''.''], [''O'', ''O'', ''.''], [''.'', ''.'', ''.'']] 0 2 CROSS) CROSS
       = Inr True
   \<and> game ''02'' [[''X'', ''X'', ''.''], [''O'', ''O'', ''.''], [''.'', ''.'', ''.'']] 0
       = (Inr ([Reply_text YOU_WON_TEXT None], FINISH_GAME),
          [[''X'', ''X'', ''X''], [''O'', ''O'', ''.''], [''.'', ''.'', ''.'']])"
proof -
  let ?b = "[[''X'', ''X'', ''.''], [''O'', ''O'', ''.''], [''.'', ''.'', ''.'']]"
  have wf: "wf_board ?b" by (simp add: wf_board_def)
  have r: "(0::nat) < 3" and c: "(2::nat) < 3" by simp_all
  have free: "?b ! 0 ! 2 = FREE_SPACE" by (simp add: FREE_SPACE_def)
  have win: "won (place ?b 0 2 CROSS) CROSS = Inr True" by code_simp
  have after: "place ?b 0 2 CROSS = [[''X'', ''X'', ''X''], [''O'', ''O'', ''.''], [''.'', ''.'', ''.'']]"
    by (simp add: place_def CROSS_def)
  have data: "str 0 @ str 2 = ''02''" by (simp add: str_0 str_2)
  have "game ''02'' ?b 0 = (Inr ([Reply_text YOU_WON_TEXT None], FINISH_GAME), place ?b 0 2 CROSS)"
    using winning_move_ends_game [OF wf r c free win, of 0, unfolded data] by (rule conjunct1)
  then have res: "game ''02'' ?b 0
      = (Inr ([Reply_text YOU_WON_TEXT None], FINISH_GAME),
         [[''X'', ''X'', ''X''], [''O'', ''O'', ''.''], [''.'', ''.'', ''.'']])"
    unfolding after .
  from wf r c free win res show ?thesis by (intro conjI)
qed

text \<open>
  C5. For every board on which the player's legal move fills the last EMPTY cell without
  winning: the handler answers DRAW and moves to TERMINAL, and the board it leaves is
  the input board with the player's cross only: the opponent does not move.
\<close>

theorem last_cell_without_win_is_draw:
  assumes "wf_board board" and "r < 3" and "c < 3" and "board ! r ! c = FREE_SPACE"
    and "won (place board r c CROSS) CROSS = Inr False"
    and "free_cells (place board r c CROSS) = Inr []"
  shows "game (str r @ str c) board k
           = (Inr ([Reply_text DRAW_TEXT None], FINISH_GAME), place board r c CROSS)
         \<and> (\<forall>i j. (i, j) \<noteq> (r, c) \<longrightarrow> place board r c CROSS ! i ! j = board ! i ! j)"
proof -
  from assms(1) have wf1: "wf_board (place board r c CROSS)" by (rule wf_board_place)
  with assms(5) have "\<not> hasWon_spec (place board r c CROSS) CROSS" by (simp add: won_wf)
  moreover from wf1 assms(6) have "empty_cells (place board r c CROSS) = []"
    by (simp add: free_cells_wf)
  ultimately show ?thesis using assms(1-4) by (simp add: game_wf place_other)
qed

theorem last_cell_without_win_is_draw_witness:
  "wf_board [[''X'', ''O'', ''X''], [''X'', ''O'', ''O''], [''O'', ''X'', ''.'']]
   \<and> (2::nat) < 3
   \<and> [[''X'', ''O'', ''X''], [''X'', ''O'', ''O''], [''O'', ''X'', ''.'']] ! 2 ! 2 = FREE_SPACE
   \<and> won (place [[''X'', ''O'', ''X''], [''X'', ''O'', ''O''], [''O'', ''X'', ''.'']] 2 2 CROSS) CROSS
       = Inr False
   \<and> free_cells (place [[''X'', ''O'', ''X''], [''X'', ''O'', ''O''], [''O'', ''X'', ''.'']] 2 2 CROSS)
       = Inr []
   \<and> game ''22'' [[''X'', ''O'', ''X''], [''X'', ''O'', ''O''], [''O'', ''X'', ''.'']] 0
       = (Inr ([Reply_text DRAW_TEXT None], FINISH_GAME),
          [[''X'', ''O'', ''X''], [''X'', ''O'', ''O''], [''O'', ''X'', ''X'']])"
proof -
  let ?b = "[[''X'', ''O'', ''X''], [''X'', ''O'', ''O''], [''O'', ''X'', ''.'']]"
  have wf: "wf_board ?b" by (simp add: wf_board_def)
  have r: "(2::nat) < 3" by simp
  have free: "?b ! 2 ! 2 = FREE_SPACE" by (simp add: FREE_SPACE_def)
  have nowin: "won (place ?b 2 2 CROSS) CROSS = Inr False" by code_simp
  have full: "free_cells (place ?b 2 2 CROSS) = Inr []" by code_simp
  have after: "place ?b 2 2 CROSS = [[''X'', ''O'', ''X''], [''X'', ''O'', ''O''], [''O'', ''X'', ''X'']]"
    by (simp add: place_def CROSS_def)
  have data: "str 2 @ str 2 = ''22''" by (simp add: str_2)
  have "game ''22'' ?b 0 = (Inr ([Reply_text DRAW_TEXT None], FINISH_GAME), place ?b 2 2 CROSS)"
    using last_cell_without_win_is_draw [OF wf r r free nowin full, of 0, unfolded data]
    by (rule conjunct1)
  then have res: "game ''22'' ?b 0
      = (Inr ([Reply_text DRAW_TEXT None], FINISH_GAME),
         [[''X'', ''O'', ''X''], [''X'', ''O'', ''O''], [''O'', ''X'', ''X'']])"
    unfolding after .
  from wf r free nowin full res show ?thesis by (intro conjI)
qed

text \<open>
  C6. For every board on which the player's move is legal, the player does not win and
  at least one EMPTY cell remains after the player's cross: the board the handler leaves
  differs from the board after the player's cross in exactly one cell, which is one of the
  cells that were EMPTY after the player's move and now holds the opponent's mark.
\<close>

theorem one_opponent_move_into_empty_cell:
  assumes "wf_board board" and "r < 3" and "c < 3" and "board ! r ! c = FREE_SPACE"
    and "won (place board r c CROSS) CROSS = Inr False"
    and "free_cells (place board r c CROSS) = Inr cells" and "cells \<noteq> []"
  shows "\<exists>ir ic. (ir, ic) \<in> set cells
           \<and> place board r c CROSS ! ir ! ic = FREE_SPACE
           \<and> snd (game (str r @ str c) board k) = place (place board r c CROSS) ir ic ZERO
           \<and> snd (game (str r @ str c) board k) ! ir ! ic = ZERO
           \<and> (\<forall>i j. (i, j) \<noteq> (ir, ic) \<longrightarrow>
                 snd (game (str r @ str c) board k) ! i ! j = place board r c CROSS ! i ! j)"
proof -
  let ?b1 = "place board r c CROSS"
  from assms(1) have wf1: "wf_board ?b1" by (rule wf_board_place)
  with assms(5) have nowin: "\<not> hasWon_spec ?b1 CROSS" by (simp add: won_wf)
  from wf1 assms(6) have cells: "empty_cells ?b1 = cells" by (simp add: free_cells_wf)
  define p where "p = cells ! (k mod length cells)"
  from assms(7) have mem: "p \<in> set cells" unfolding p_def by (simp add: nth_mem)
  with cells have free: "?b1 ! fst p ! snd p = FREE_SPACE" and bound: "fst p < 3" "snd p < 3"
    by (auto simp: empty_cells_def positions_bound)
  have after: "snd (game (str r @ str c) board k) = place ?b1 (fst p) (snd p) ZERO"
    using assms(1-4,7) nowin cells by (simp add: game_wf Let_def p_def)
  have "(fst p, snd p) \<in> set cells" using mem by simp
  with free after show ?thesis
    using place_same [OF wf1 bound] place_other [of _ _ "fst p" "snd p" ?b1 ZERO]
    by (intro exI [of _ "fst p"] exI [of _ "snd p"]) simp
qed

theorem one_opponent_move_into_empty_cell_witness:
  "wf_board [[''X'', ''X'', ''.''], [''O'', ''O'', ''.''], [''.'', ''.'', ''.'']]
   \<and> (2::nat) < 3
   \<and> [[''X'', ''X'', ''.''], [''O'', ''O'', ''.''], [''.'', ''.'', ''.'']] ! 2 ! 2 = FREE_SPACE
   \<and> won (place [[''X'', ''X'', ''.''], [''O'', ''O'', ''.''], [''.'', ''.'', ''.'']] 2 2 CROSS) CROSS
       = Inr False
   \<and> free_cells (place [[''X'', ''X'', ''.''], [''O'', ''O'', ''.''], [''.'', ''.'', ''.'']] 2 2 CROSS)
       = Inr [(0, 2), (1, 2), (2, 0), (2, 1)]
   \<and> [(0, 2), (1, 2), (2, 0), (2, 1)] \<noteq> ([] :: (nat \<times> nat) list)
   \<and> (\<exists>ir ic. (ir, ic) \<in> set [(0, 2), (1, 2), (2, 0), (2, 1)]
        \<and> snd (game ''22'' [[''X'', ''X'', ''.''], [''O'', ''O'', ''.''], [''.'', ''.'', ''.'']] 5)
            = place (place [[''X'', ''X'', ''.''], [''O'', ''O'', ''.''], [''.'', ''.'', ''.'']] 2 2 CROSS)
                ir ic ZERO)"
proof -
  let ?b = "[[''X'', ''X'', ''.''], [''O'', ''O'', ''.''], [''.'', ''.'', ''.'']]"
  have wf: "wf_board ?b" by (simp add: wf_board_def)
  have r: "(2::nat) < 3" by simp
  have free: "?b ! 2 ! 2 = FREE_SPACE" by (simp add: FREE_SPACE_def)
  have nowin: "won (place ?b 2 2 CROSS) CROSS = Inr False" by code_simp
  have cells: "free_cells (place ?b 2 2 CROSS) = Inr [(0, 2), (1, 2), (2, 0), (2, 1)]"
    by code_simp
  have ne: "[(0, 2), (1, 2), (2, 0), (2, 1)] \<noteq> ([] :: (nat \<times> nat) list)" by simp
  have data: "str 2 @ str 2 = ''22''" by (simp add: str_2)
  from one_opponent_move_into_empty_cell [OF wf r r free nowin cells ne, of 5, unfolded data]
  have "\<exists>ir ic. (ir, ic) \<in> set [(0, 2), (1, 2), (2, 0), (2, 1)]
        \<and> snd (game ''22'' ?b 5) = place (place ?b 2 2 CROSS) ir ic ZERO"
    by (elim exE conjE) (intro exI conjI; assumption)
  with wf r free nowin cells ne show ?thesis by (intro conjI)
qed

text \<open>
  C7. For every board and every move, the handler returns, and it returns exactly one of
  the two states AWAITING_MOVE and TERMINAL, which the outcome determines: AWAITING_MOVE
  exactly for ILLEGAL_MOVE and ONGOING, TERMINAL exactly for PLAYER_WIN, OPPONENT_WIN
  and DRAW.
\<close>

theorem state_determined_by_outcome:
  assumes "wf_board board" and "r < 3" and "c < 3"
  shows "\<exists>act ret board' out.
           game (str r @ str c) board k = (Inr ([act], ret), board')
         \<and> outcome_of act = Some out
         \<and> (ret = CONTINUE_GAME \<or> ret = FINISH_GAME)
         \<and> CONTINUE_GAME \<noteq> FINISH_GAME
         \<and> (ret = CONTINUE_GAME \<longleftrightarrow> out = ILLEGAL_MOVE \<or> out = ONGOING)
         \<and> (ret = FINISH_GAME \<longleftrightarrow> out = PLAYER_WIN \<or> out = OPPONENT_WIN \<or> out = DRAW)"
  unfolding game_wf [OF assms]
  by (simp add: Let_def outcome_of_simps CONTINUE_GAME_def FINISH_GAME_def)

theorem state_determined_by_outcome_witness:
  "wf_board [[''.'', ''.'', ''.''], [''.'', ''.'', ''.''], [''.'', ''.'', ''.'']]
   \<and> (0::nat) < 3
   \<and> (\<exists>act board'.
        game ''00'' [[''.'', ''.'', ''.''], [''.'', ''.'', ''.''], [''.'', ''.'', ''.'']] 0
          = (Inr ([act], CONTINUE_GAME), board')
        \<and> outcome_of act = Some ONGOING)"
proof -
  let ?b = "[[''.'', ''.'', ''.''], [''.'', ''.'', ''.''], [''.'', ''.'', ''.'']]"
  have wf: "wf_board ?b" by (simp add: wf_board_def)
  have r: "(0::nat) < 3" by simp
  have here: "game ''00'' ?b 0
    = (Inr ([Edit_message_text TURN_TEXT
         (keyboard_of [[''X'', ''O'', ''.''], [''.'', ''.'', ''.''], [''.'', ''.'', ''.'']])],
         CONTINUE_GAME),
       [[''X'', ''O'', ''.''], [''.'', ''.'', ''.''], [''.'', ''.'', ''.'']])"
    by code_simp
  from state_determined_by_outcome [OF wf r r, of 0]
  obtain act ret board' out where
    g: "game ''00'' ?b 0 = (Inr ([act], ret), board')" and o: "outcome_of act = Some out"
    and cont: "ret = CONTINUE_GAME \<longleftrightarrow> out = ILLEGAL_MOVE \<or> out = ONGOING"
    unfolding str_0 by auto
  from g here have ret: "ret = CONTINUE_GAME" by auto
  from g here have "act = Edit_message_text TURN_TEXT
         (keyboard_of [[''X'', ''O'', ''.''], [''.'', ''.'', ''.''], [''.'', ''.'', ''.'']])"
    by auto
  then have "outcome_of act = Some ONGOING" by (simp add: outcome_of_simps)
  with g ret have "\<exists>act board'. game ''00'' ?b 0 = (Inr ([act], CONTINUE_GAME), board')
        \<and> outcome_of act = Some ONGOING"
    by blast
  with wf r show ?thesis by (intro conjI)
qed

section \<open>The draw check after the opponent's turn\<close>

text \<open>
  The handler decides the draw on the list of cells that were EMPTY before the opponent
  moved. Called on the hand-built board below, which holds four crosses and three zeros,
  the function leaves a full board, edits the keyboard and returns \<^verbatim>\<open>CONTINUE_GAME\<close>. No
  board in play is such a board (\<open>in_play_balanced\<close>): the handler writes a cross and
  then a zero in one call, so this evaluation says what the function computes, not what
  a session can show.
\<close>

lemma draw_check_on_hand_built_board:
  "wf_board [[''X'', ''O'', ''X''], [''X'', ''O'', ''O''], [''.'', ''.'', ''X'']]
   \<and> [[''X'', ''O'', ''X''], [''X'', ''O'', ''O''], [''.'', ''.'', ''X'']] ! 2 ! 1 = FREE_SPACE
   \<and> won (place [[''X'', ''O'', ''X''], [''X'', ''O'', ''O''], [''.'', ''.'', ''X'']] 2 1 CROSS) CROSS
       = Inr False
   \<and> free_cells (place [[''X'', ''O'', ''X''], [''X'', ''O'', ''O''], [''.'', ''.'', ''X'']] 2 1 CROSS)
       = Inr [(2, 0)]
   \<and> snd (game ''21'' [[''X'', ''O'', ''X''], [''X'', ''O'', ''O''], [''.'', ''.'', ''X'']] 0)
       = [[''X'', ''O'', ''X''], [''X'', ''O'', ''O''], [''O'', ''X'', ''X'']]
   \<and> won [[''X'', ''O'', ''X''], [''X'', ''O'', ''O''], [''O'', ''X'', ''X'']] ZERO = Inr False
   \<and> free_cells [[''X'', ''O'', ''X''], [''X'', ''O'', ''O''], [''O'', ''X'', ''X'']] = Inr []
   \<and> fst (game ''21'' [[''X'', ''O'', ''X''], [''X'', ''O'', ''O''], [''.'', ''.'', ''X'']] 0)
       = Inr ([Edit_message_text TURN_TEXT
           (keyboard_of [[''X'', ''O'', ''X''], [''X'', ''O'', ''O''], [''O'', ''X'', ''X'']])],
           CONTINUE_GAME)
   \<and> fst (game ''21'' [[''X'', ''O'', ''X''], [''X'', ''O'', ''O''], [''.'', ''.'', ''X'']] 0)
       \<noteq> Inr ([Reply_text DRAW_TEXT None], FINISH_GAME)"
  by (intro conjI; code_simp)

text \<open>
  On a board that holds as many crosses as zeros, on which the player's move is legal,
  the player does not win, at least one EMPTY cell remains so that the opponent moves,
  and the opponent does not win: an EMPTY cell remains after the opponent's mark, the
  handler edits the keyboard and returns \<^verbatim>\<open>CONTINUE_GAME\<close>. So the case in which the
  opponent's mark fills the board does not arise on such a board.
\<close>

lemma opponent_move_leaves_empty_cell:
  assumes "wf_board board" and "r < 3" and "c < 3" and "marks_balanced board"
    and "board ! r ! c = FREE_SPACE"
    and "won (place board r c CROSS) CROSS = Inr False"
    and "free_cells (place board r c CROSS) = Inr cells" and "cells \<noteq> []"
    and "won (snd (game (str r @ str c) board k)) ZERO = Inr False"
  shows "\<exists>keyboard board' cells'.
           game (str r @ str c) board k
             = (Inr ([Edit_message_text TURN_TEXT keyboard], CONTINUE_GAME), board')
         \<and> free_cells board' = Inr cells' \<and> cells' \<noteq> []"
proof -
  let ?b1 = "place board r c CROSS"
  from assms(1) have wf1: "wf_board ?b1" by (rule wf_board_place)
  with assms(6) have nowin: "\<not> hasWon_spec ?b1 CROSS" by (simp add: won_wf)
  from wf1 assms(7) have cells: "empty_cells ?b1 = cells" by (simp add: free_cells_wf)
  define p where "p = cells ! (k mod length cells)"
  let ?b2 = "place ?b1 (fst p) (snd p) ZERO"
  from assms(8) have mem: "p \<in> set cells" unfolding p_def by (simp add: nth_mem)
  with cells have free: "?b1 ! fst p ! snd p = FREE_SPACE" and bound: "fst p < 3" "snd p < 3"
    by (auto simp: empty_cells_def positions_bound)
  from wf1 have wf2: "wf_board ?b2" by (rule wf_board_place)
  have after: "snd (game (str r @ str c) board k) = ?b2"
    using assms(1-3,5,8) nowin cells by (simp add: game_wf Let_def p_def)
  with assms(9) wf2 have nowin2: "\<not> hasWon_spec ?b2 ZERO" by (simp add: won_wf)
  have result: "game (str r @ str c) board k
                = (Inr ([Edit_message_text TURN_TEXT (keyboard_of ?b2)], CONTINUE_GAME), ?b2)"
    using assms(1-3,5,8) nowin cells nowin2 by (simp add: game_wf Let_def p_def)
  have "odd (length (empty_cells board))"
    using assms(1,4) by (rule balanced_odd_empty)
  moreover have "Suc (length (empty_cells ?b1)) = length (empty_cells board)"
    using assms(1-3,5) by (simp add: length_empty_cells_place marks_distinct)
  moreover have "Suc (length (empty_cells ?b2)) = length (empty_cells ?b1)"
    using wf1 bound free by (simp add: length_empty_cells_place marks_distinct)
  moreover have "length (empty_cells ?b1) > 0" using cells assms(8) by simp
  ultimately have "length (empty_cells ?b2) > 0" by presburger
  then have "empty_cells ?b2 \<noteq> []" by simp
  with result wf2 show ?thesis by (simp add: free_cells_wf)
qed

lemma opponent_move_leaves_empty_cell_example:
  "wf_board [[''.'', ''.'', ''.''], [''.'', ''.'', ''.''], [''.'', ''.'', ''.'']]
   \<and> (0::nat) < 3
   \<and> marks_balanced [[''.'', ''.'', ''.''], [''.'', ''.'', ''.''], [''.'', ''.'', ''.'']]
   \<and> [[''.'', ''.'', ''.''], [''.'', ''.'', ''.''], [''.'', ''.'', ''.'']] ! 0 ! 0 = FREE_SPACE
   \<and> won (place [[''.'', ''.'', ''.''], [''.'', ''.'', ''.''], [''.'', ''.'', ''.'']] 0 0 CROSS) CROSS
       = Inr False
   \<and> free_cells (place [[''.'', ''.'', ''.''], [''.'', ''.'', ''.''], [''.'', ''.'', ''.'']] 0 0 CROSS)
       = Inr [(0, 1), (0, 2), (1, 0), (1, 1), (1, 2), (2, 0), (2, 1), (2, 2)]
   \<and> won (snd (game ''00'' [[''.'', ''.'', ''.''], [''.'', ''.'', ''.''], [''.'', ''.'', ''.'']] 0)) ZERO
       = Inr False
   \<and> (\<exists>keyboard board' cells'.
         game ''00'' [[''.'', ''.'', ''.''], [''.'', ''.'', ''.''], [''.'', ''.'', ''.'']] 0
           = (Inr ([Edit_message_text TURN_TEXT keyboard], CONTINUE_GAME), board')
         \<and> free_cells board' = Inr cells' \<and> cells' \<noteq> [])"
proof -
  let ?b = "[[''.'', ''.'', ''.''], [''.'', ''.'', ''.''], [''.'', ''.'', ''.'']]"
  have wf: "wf_board ?b" by (simp add: wf_board_def)
  have r: "(0::nat) < 3" by simp
  have bal: "marks_balanced ?b" by code_simp
  have free: "?b ! 0 ! 0 = FREE_SPACE" by (simp add: FREE_SPACE_def)
  have nowin: "won (place ?b 0 0 CROSS) CROSS = Inr False" by code_simp
  have cells: "free_cells (place ?b 0 0 CROSS)
               = Inr [(0, 1), (0, 2), (1, 0), (1, 1), (1, 2), (2, 0), (2, 1), (2, 2)]"
    by code_simp
  have ne: "[(0, 1), (0, 2), (1, 0), (1, 1), (1, 2), (2, 0), (2, 1), (2, 2)]
            \<noteq> ([] :: (nat \<times> nat) list)" by simp
  have nowin2: "won (snd (game ''00'' ?b 0)) ZERO = Inr False" by code_simp
  have nowin2': "won (snd (game (str 0 @ str 0) ?b 0)) ZERO = Inr False"
    using nowin2 by (simp add: str_0)
  from opponent_move_leaves_empty_cell [OF wf r r bal free nowin cells ne nowin2']
  have "\<exists>keyboard board' cells'.
         game ''00'' ?b 0 = (Inr ([Edit_message_text TURN_TEXT keyboard], CONTINUE_GAME), board')
         \<and> free_cells board' = Inr cells' \<and> cells' \<noteq> []"
    by (simp add: str_0)
  with wf r bal free nowin cells nowin2 show ?thesis by (intro conjI)
qed

text \<open>
  Every board in play is such a board, so in a session the board is never full after the
  opponent's mark: a game can only be drawn by the player's own last cross.
\<close>

lemma board_in_play_never_full_after_opponent:
  assumes "in_play board" and "r < 3" and "c < 3"
    and "board ! r ! c = FREE_SPACE"
    and "won (place board r c CROSS) CROSS = Inr False"
    and "free_cells (place board r c CROSS) = Inr cells" and "cells \<noteq> []"
    and "won (snd (game (str r @ str c) board k)) ZERO = Inr False"
  shows "\<exists>keyboard board' cells'.
           game (str r @ str c) board k
             = (Inr ([Edit_message_text TURN_TEXT keyboard], CONTINUE_GAME), board')
         \<and> free_cells board' = Inr cells' \<and> cells' \<noteq> []"
proof -
  from in_play_balanced [OF assms(1)] have wf: "wf_board board" and bal: "marks_balanced board"
    by simp_all
  from wf assms(2,3) bal assms(4-8) show ?thesis
    by (rule opponent_move_leaves_empty_cell)
qed

section \<open>Claims about the keyboard\<close>

text \<open>
  C10. For every board, the keyboard of \<^verbatim>\<open>generate_keyboard\<close> is the transpose of the
  board: the button at keyboard position (i, j) shows the cell \<^verbatim>\<open>state[j][i]\<close> and carries
  the callback data \<^verbatim>\<open>'ji'\<close>, so the data of a button addresses the very cell whose value
  the button shows, while the grid of texts is the board with rows and columns swapped.
\<close>

theorem keyboard_is_transposed_board:
  assumes "wf_board state" and "i < 3" and "j < 3"
  shows "\<exists>keyboard. generate_keyboard state = Inr keyboard
         \<and> keyboard ! i ! j = InlineKeyboardButton (state ! j ! i) (str j @ str i)
         \<and> parse_move (callback_data (keyboard ! i ! j)) = Inr (j, i)
         \<and> getitem2 state j i = Inr (button_text (keyboard ! i ! j))
         \<and> map (map button_text) keyboard = transpose state"
proof -
  have kb: "generate_keyboard state = Inr (keyboard_of state)"
    using assms(1) by (rule generate_keyboard_wf)
  have cell: "keyboard_of state ! i ! j = InlineKeyboardButton (state ! j ! i) (str j @ str i)"
    using assms(2,3) by (simp add: keyboard_of_def)
  have tr: "map (map button_text) (keyboard_of state) = transpose state"
    using assms(1)
    by (elim wf_boardE) (simp add: keyboard_of_def upt_3 transpose_3x3)
  from kb cell tr show ?thesis
    using assms by (simp add: parse_move_str getitem2_wf)
qed

theorem keyboard_is_transposed_board_witness:
  "wf_board [[''X'', ''X'', ''.''], [''O'', ''O'', ''.''], [''.'', ''.'', ''.'']]
   \<and> (0::nat) < 3 \<and> (1::nat) < 3
   \<and> (\<exists>keyboard.
        generate_keyboard [[''X'', ''X'', ''.''], [''O'', ''O'', ''.''], [''.'', ''.'', ''.'']]
          = Inr keyboard
        \<and> keyboard ! 0 ! 1 = InlineKeyboardButton ''O'' ''10''
        \<and> map (map button_text) keyboard
            = [[''X'', ''O'', ''.''], [''X'', ''O'', ''.''], [''.'', ''.'', ''.'']])"
proof -
  let ?b = "[[''X'', ''X'', ''.''], [''O'', ''O'', ''.''], [''.'', ''.'', ''.'']]"
  have wf: "wf_board ?b" by (simp add: wf_board_def)
  have i: "(0::nat) < 3" and j: "(1::nat) < 3" by simp_all
  have data: "str 1 @ str 0 = ''10''" unfolding str_0 str_1 by simp
  have cell: "?b ! 1 ! 0 = ''O''" by simp
  have tr: "transpose ?b = [[''X'', ''O'', ''.''], [''X'', ''O'', ''.''], [''.'', ''.'', ''.'']]"
    by (simp add: transpose_3x3)
  from keyboard_is_transposed_board [OF wf i j, unfolded data cell tr]
  have "\<exists>keyboard. generate_keyboard ?b = Inr keyboard
        \<and> keyboard ! 0 ! 1 = InlineKeyboardButton ''O'' ''10''
        \<and> map (map button_text) keyboard
            = [[''X'', ''O'', ''.''], [''X'', ''O'', ''.''], [''.'', ''.'', ''.'']]"
    by (elim exE conjE) (intro exI conjI; assumption)
  with wf i j show ?thesis by (intro conjI)
qed

section \<open>Claims about the callback patterns\<close>

text \<open>
  C9. The registered patterns are meant to accept exactly the nine two-character strings
  \<^verbatim>\<open>'00'\<close> to \<^verbatim>\<open>'22'\<close>, so that every move event that reaches \<^verbatim>\<open>game\<close> parses to
  coordinates in [0,2] and the handler never faults. The code breaks this at the callback
  data \<^verbatim>\<open>'00\n'\<close>: the pattern \<^verbatim>\<open>^00$\<close> matches it, because \<^verbatim>\<open>$\<close> also matches before a
  final newline, the query reaches \<^verbatim>\<open>game\<close>, and \<^verbatim>\<open>r, c = map(int, query.data)\<close> raises
  ValueError before the board is read.
\<close>

theorem newline_data_reaches_game_and_raises:
  "reaches_game (''00'' @ [CHR 0x0A])
   \<and> fst (game (''00'' @ [CHR 0x0A]) state k) = Inl ValueError
   \<and> snd (game (''00'' @ [CHR 0x0A]) state k) = state"
  by (simp add: reaches_game_def game_patterns_eq re_match_def game_def parse_move_def attempt_def)

section \<open>Claims about the reset of the board\<close>

text \<open>
  C8, as the specification states it: a reset always leaves the session in
  AWAITING_MOVE. The handler \<^verbatim>\<open>end\<close>, which resets the board when a button is pressed
  after a finished game, stores a fresh empty board but returns
  \<^verbatim>\<open>ConversationHandler.END\<close>, which is not \<^verbatim>\<open>CONTINUE_GAME\<close>: the conversation is over
  until the next \<^verbatim>\<open>/start\<close>.
\<close>

theorem end_returns_END_counterexample:
  "session_board played_context
     = Some [[''X'', ''X'', ''X''], [''O'', ''O'', ''.''], [''.'', ''.'', ''.'']]
   \<and> won [[''X'', ''X'', ''X''], [''O'', ''O'', ''.''], [''.'', ''.'', ''.'']] CROSS = Inr True
   \<and> fst (end_handler played_context) = Inr ([], END)
   \<and> END \<noteq> CONTINUE_GAME
   \<and> session_board (snd (end_handler played_context))
       = Some [[''.'', ''.'', ''.''], [''.'', ''.'', ''.''], [''.'', ''.'', ''.'']]"
proof -
  have w: "won [[''X'', ''X'', ''X''], [''O'', ''O'', ''.''], [''.'', ''.'', ''.'']] CROSS = Inr True"
    by code_simp
  have e: "fst (end_handler played_context) = Inr ([], END)"
    by (simp add: end_handler_def split: prod.splits)
  have n: "END \<noteq> CONTINUE_GAME" by (simp add: END_def CONTINUE_GAME_def)
  have f: "session_board (snd (end_handler played_context))
       = Some [[''.'', ''.'', ''.''], [''.'', ''.'', ''.''], [''.'', ''.'', ''.'']]"
    using reach_reset_session [OF reach_played]
    unfolding snd_handlers default_board_eq .
  from played_board w e n f show ?thesis by (intro conjI)
qed

text \<open>
  C8, amended. In every context that the handlers can reach, also after a finished game:
  \<^verbatim>\<open>start\<close> (the new session, and the reset on \<^verbatim>\<open>/start\<close>) stores a board with all 9
  cells EMPTY and returns AWAITING_MOVE; \<^verbatim>\<open>end\<close> stores the same fresh board and returns
  \<^verbatim>\<open>ConversationHandler.END\<close>, and \<^verbatim>\<open>stop\<close> stores it too before it calls the library
  to stop the application. The fresh board is independent of every earlier
  board, \<^verbatim>\<open>DEFAULT_STATE\<close> included: they share no list, so that no store through an
  earlier board changes the fresh one and no store through the fresh one changes an
  earlier one.
\<close>

theorem reset_stores_fresh_board:
  assumes "reach ctx"
  shows "\<exists>keyboard g.
           fst (start ctx) = Inr ([Reply_text TURN_TEXT (Some keyboard)], CONTINUE_GAME)
         \<and> fst (end_handler ctx) = Inr ([], END)
         \<and> snd (end_handler ctx) = snd (start ctx)
         \<and> snd (stop ctx) = snd (start ctx)
         \<and> keyboard_state (snd (start ctx)) = Some g
         \<and> board_at (store (snd (start ctx))) g = default_board
         \<and> independent_of_earlier (store ctx) (store (snd (start ctx))) g"
proof -
  from reach_reset [OF assms] obtain y h'
    where r: "reset_state ctx = (y, ctx\<lparr>store := h', keyboard_state := Some y\<rparr>)"
      and board: "board_at h' y = default_board"
      and ind: "independent_of_earlier (store ctx) h' y"
    by blast
  have kb: "generate_keyboard default_board = Inr (keyboard_of default_board)"
    using default_board_wf by (rule generate_keyboard_wf)
  show ?thesis
    using board ind
    by (simp add: start_def end_handler_def stop_def r attempt_def kb)
qed

theorem reset_stores_fresh_board_witness:
  "reach played_context
   \<and> session_board played_context
       = Some [[''X'', ''X'', ''X''], [''O'', ''O'', ''.''], [''.'', ''.'', ''.'']]
   \<and> (\<exists>keyboard g.
         fst (start played_context) = Inr ([Reply_text TURN_TEXT (Some keyboard)], CONTINUE_GAME)
       \<and> fst (end_handler played_context) = Inr ([], END)
       \<and> keyboard_state (snd (start played_context)) = Some g
       \<and> board_at (store (snd (start played_context))) g
           = [[''.'', ''.'', ''.''], [''.'', ''.'', ''.''], [''.'', ''.'', ''.'']]
       \<and> independent_of_earlier (store played_context) (store (snd (start played_context))) g)"
proof -
  from reset_stores_fresh_board [OF reach_played, unfolded default_board_eq]
  have "\<exists>keyboard g.
         fst (start played_context) = Inr ([Reply_text TURN_TEXT (Some keyboard)], CONTINUE_GAME)
       \<and> fst (end_handler played_context) = Inr ([], END)
       \<and> keyboard_state (snd (start played_context)) = Some g
       \<and> board_at (store (snd (start played_context))) g
           = [[''.'', ''.'', ''.''], [''.'', ''.'', ''.''], [''.'', ''.'', ''.'']]
       \<and> independent_of_earlier (store played_context) (store (snd (start played_context))) g"
    by (elim exE conjE) (intro exI conjI; assumption)
  with reach_played played_board show ?thesis by (intro conjI)
qed

end
